theory Spec2Isabelle
  imports Main "HOL-Library.Word"
begin

section \<open>Machine integers of the Go source\<close>

text \<open>
  Go's \<^verbatim>\<open>int\<close> is 64 bits wide on the platforms the pipeline is built for, and
  \<^verbatim>\<open>time.Duration\<close> is an \<^verbatim>\<open>int64\<close> counting nanoseconds. Both are modelled as
  64-bit words: \<open>+\<close> and \<open>*\<close> wrap around, \<open>sint\<close> reads the two's complement value and
  \<open><s\<close> is the signed comparison of the source.
\<close>

type_synonym go_int = "64 word"
type_synonym duration = "64 word"

section \<open>Token tracker (token\_tracker.go)\<close>

text \<open>
  \<^verbatim>\<open>TokenUsage\<close> keeps the three token counters. The fields \<^verbatim>\<open>EstimatedCost\<close> (a
  \<^verbatim>\<open>float64\<close>) and \<^verbatim>\<open>Timestamp\<close> (wall-clock time) are left out: no statement below
  reads them, and floating point and real time have no place in this embedding.
\<close>

record TokenUsage =
  PromptTokens :: go_int
  CompletionTokens :: go_int
  TotalTokens :: go_int

definition zero_TokenUsage :: TokenUsage where
  "zero_TokenUsage = \<lparr>PromptTokens = 0, CompletionTokens = 0, TotalTokens = 0\<rparr>"

record TokenTracker =
  usageByWeek :: "string \<rightharpoonup> TokenUsage list"
  totalUsage :: TokenUsage

text \<open>\<^verbatim>\<open>NewTokenTracker\<close>: an empty map and the zero value of \<^verbatim>\<open>totalUsage\<close>.\<close>

definition NewTokenTracker :: TokenTracker where
  "NewTokenTracker = \<lparr>usageByWeek = Map.empty, totalUsage = zero_TokenUsage\<rparr>"

text \<open>Reading a Go map at a missing key gives the nil slice.\<close>

definition week_usages :: "TokenTracker \<Rightarrow> string \<Rightarrow> TokenUsage list" where
  "week_usages tt weekLabel =
     (case usageByWeek tt weekLabel of None \<Rightarrow> [] | Some us \<Rightarrow> us)"

definition RecordUsage :: "TokenTracker \<Rightarrow> string \<Rightarrow> go_int \<Rightarrow> go_int \<Rightarrow> TokenTracker" where
  "RecordUsage tt weekLabel promptTokens completionTokens =
     (let totalTokens = promptTokens + completionTokens;
          usage = \<lparr>PromptTokens = promptTokens, CompletionTokens = completionTokens,
                   TotalTokens = totalTokens\<rparr>
      in \<lparr>usageByWeek = (usageByWeek tt)(weekLabel \<mapsto> week_usages tt weekLabel @ [usage]),
          totalUsage =
            \<lparr>PromptTokens = PromptTokens (totalUsage tt) + promptTokens,
             CompletionTokens = CompletionTokens (totalUsage tt) + completionTokens,
             TotalTokens = TotalTokens (totalUsage tt) + totalTokens\<rparr>\<rparr>)"

definition add_usage :: "TokenUsage \<Rightarrow> TokenUsage \<Rightarrow> TokenUsage" where
  "add_usage summary usage =
     \<lparr>PromptTokens = PromptTokens summary + PromptTokens usage,
      CompletionTokens = CompletionTokens summary + CompletionTokens usage,
      TotalTokens = TotalTokens summary + TotalTokens usage\<rparr>"

definition GetWeekSummary :: "TokenTracker \<Rightarrow> string \<Rightarrow> TokenUsage" where
  "GetWeekSummary tt weekLabel =
     (let weekUsages = week_usages tt weekLabel
      in if length weekUsages = 0 then zero_TokenUsage
         else foldl add_usage zero_TokenUsage weekUsages)"

definition GetTotalSummary :: "TokenTracker \<Rightarrow> TokenUsage" where
  "GetTotalSummary tt = totalUsage tt"

text \<open>A sequence of \<^verbatim>\<open>RecordUsage(label, p, c)\<close> calls, applied from left to right.\<close>

type_synonym usage_call = "string \<times> go_int \<times> go_int"

definition record_all :: "TokenTracker \<Rightarrow> usage_call list \<Rightarrow> TokenTracker" where
  "record_all tt calls = foldl (\<lambda>t (l, p, c). RecordUsage t l p c) tt calls"

definition under_label :: "string \<Rightarrow> usage_call list \<Rightarrow> usage_call list" where
  "under_label l calls = filter (\<lambda>(l', p, c). l' = l) calls"

definition sum_prompt :: "usage_call list \<Rightarrow> go_int" where
  "sum_prompt calls = sum_list (map (\<lambda>(l, p, c). p) calls)"

definition sum_completion :: "usage_call list \<Rightarrow> go_int" where
  "sum_completion calls = sum_list (map (\<lambda>(l, p, c). c) calls)"

definition sum_total :: "usage_call list \<Rightarrow> go_int" where
  "sum_total calls = sum_list (map (\<lambda>(l, p, c). p + c) calls)"

definition sums_of :: "usage_call list \<Rightarrow> TokenUsage" where
  "sums_of calls =
     \<lparr>PromptTokens = sum_prompt calls, CompletionTokens = sum_completion calls,
      TotalTokens = sum_total calls\<rparr>"

text \<open>The record that one call appends.\<close>

definition usage_of :: "usage_call \<Rightarrow> TokenUsage" where
  "usage_of = (\<lambda>(l, p, c). \<lparr>PromptTokens = p, CompletionTokens = c, TotalTokens = p + c\<rparr>)"

section \<open>Processor data (processor.go)\<close>

text \<open>
  The sizes and counters of \<^verbatim>\<open>Config\<close> are Go \<^verbatim>\<open>int\<close>s that stay far from the
  64-bit limits (a batch size, a number of retries); they are modelled as \<open>int\<close>, so
  that zero and negative settings remain expressible. The two retry delays are
  \<^verbatim>\<open>time.Duration\<close>s and take part in a multiplication that can wrap, so they are
  words. \<^verbatim>\<open>Temperature\<close> (a \<^verbatim>\<open>float64\<close>) is left out.
\<close>

record Config =
  APIKey :: string
  Model :: string
  MaxTokens :: int
  Timeout :: duration
  SystemMessage :: string
  BatchSize :: int
  MaxConcurrent :: int
  RateLimitPerMin :: int
  MaxRetries :: int
  InitialRetryDelay :: duration
  MaxRetryDelay :: duration
  ExponentialBackoff :: bool
  TrackTokenUsage :: bool
  TrackTiming :: bool
  ShowProgress :: bool

text \<open>The wire structures carry the names of their JSON tags.\<close>

record Message =
  role :: string
  content :: string

record OpenAIRequest =
  req_model :: string
  messages :: "Message list"
  response_format :: string
  max_completion_tokens :: int

record Choice =
  index :: int
  message :: Message
  finish_reason :: string

record Usage =
  prompt_tokens :: go_int
  completion_tokens :: go_int
  total_tokens :: go_int

record APIError =
  err_message :: string
  err_type :: string
  err_code :: string

record OpenAIResponse =
  id :: string
  object :: string
  created :: int
  model :: string
  choices :: "Choice list"
  usage :: Usage
  error :: "APIError option"

definition zero_Usage :: Usage where
  "zero_Usage = \<lparr>prompt_tokens = 0, completion_tokens = 0, total_tokens = 0\<rparr>"

text \<open>
  Errors are values. Each constructor is one \<^verbatim>\<open>fmt.Errorf\<close> of the source (or the
  context's error); the strings are the causes reported by the library.
\<close>

datatype go_error =
    ErrEmptyPrompt
  | ErrContext
  | ErrMarshal string
  | ErrCreateRequest string
  | ErrRequestFailed string
  | ErrReadResponse string
  | ErrParseResponse string
  | ErrAPI string string
  | ErrStatus int string
  | ErrNoChoices
  | ErrFailedAfter int go_error

text \<open>
  The ways in which a call does not return to its caller: the run-time panics of the
  source, and a goroutine that blocks for good.
\<close>

datatype abort =
    PanicDivideByZero
  | PanicNilDereference
  | PanicMakeChan
  | PanicTicker
  | Hangs
  | BatchSizeNegative

text \<open>
  \<^verbatim>\<open>ProcessResult\<close>. \<^verbatim>\<open>Input\<close> is an \<^verbatim>\<open>interface{}\<close>, nil in the zero value;
  \<^verbatim>\<open>Duration\<close> (wall-clock time) is left out.
\<close>

record 'a ProcessResult =
  Index :: int
  Input :: "'a option"
  Output :: string
  Success :: bool
  Error :: "go_error option"
  Retries :: int
  ResultUsage :: Usage

definition zero_ProcessResult :: "'a ProcessResult" where
  "zero_ProcessResult =
     \<lparr>Index = 0, Input = None, Output = [], Success = False, Error = None, Retries = 0,
      ResultUsage = zero_Usage\<rparr>"

section \<open>Rate limiter\<close>

text \<open>
  The buffered channel \<^verbatim>\<open>tokens\<close> holds empty structs, so its state is the number of
  elements it holds together with its capacity. A send blocks when the buffer is full
  and a receive blocks when it is empty: both return \<open>None\<close> then.
\<close>

record RateLimiter =
  tokens :: nat
  capacity :: nat
  refillRate :: int

definition send_token :: "RateLimiter \<Rightarrow> RateLimiter option" where
  "send_token rl =
     (if tokens rl < capacity rl then Some (rl\<lparr>tokens := tokens rl + 1\<rparr>) else None)"

text \<open>The loop \<^verbatim>\<open>for i := 0; i < requestsPerMinute; i++ { rl.tokens <- struct{}{} }\<close>.\<close>

fun fill_tokens :: "nat \<Rightarrow> RateLimiter \<Rightarrow> RateLimiter option" where
  "fill_tokens 0 rl = Some rl"
| "fill_tokens (Suc n) rl =
     (case send_token rl of None \<Rightarrow> None | Some rl' \<Rightarrow> fill_tokens n rl')"

text \<open>
  \<^verbatim>\<open>NewRateLimiter\<close>. \<^verbatim>\<open>make\<close> panics on a negative size, the division
  \<^verbatim>\<open>time.Minute / time.Duration(requestsPerMinute)\<close> panics on zero, and the ticker of
  the refill goroutine panics on an interval that is not positive (more than
  \<open>6 * 10^10\<close> requests per minute).
\<close>

definition NewRateLimiter :: "int \<Rightarrow> abort + RateLimiter" where
  "NewRateLimiter requestsPerMinute =
     (if requestsPerMinute < 0 then Inl PanicMakeChan
      else if requestsPerMinute = 0 then Inl PanicDivideByZero
      else
        (case fill_tokens (nat requestsPerMinute)
                \<lparr>tokens = 0, capacity = nat requestsPerMinute,
                 refillRate = 60000000000 div requestsPerMinute\<rparr> of
           None \<Rightarrow> Inl Hangs
         | Some rl \<Rightarrow> if refillRate rl \<le> 0 then Inl PanicTicker else Inr rl))"

text \<open>
  One tick of \<^verbatim>\<open>refill\<close>: the \<^verbatim>\<open>select\<close> sends a token if the channel has room
  and takes the \<^verbatim>\<open>default\<close> branch otherwise.
\<close>

definition refill_tick :: "RateLimiter \<Rightarrow> RateLimiter" where
  "refill_tick rl = (case send_token rl of Some rl' \<Rightarrow> rl' | None \<Rightarrow> rl)"

text \<open>\<^verbatim>\<open>Wait\<close>: the receive \<^verbatim>\<open><-rl.tokens\<close>; \<open>None\<close> while the caller is blocked.\<close>

definition Wait :: "RateLimiter \<Rightarrow> RateLimiter option" where
  "Wait rl = (if 0 < tokens rl then Some (rl\<lparr>tokens := tokens rl - 1\<rparr>) else None)"

text \<open>The events that reach the channel, and a run of them. A blocked \<^verbatim>\<open>Wait\<close>
  leaves the channel as it is.\<close>

datatype limiter_event = Tick | Acquire

fun limiter_step :: "RateLimiter \<Rightarrow> limiter_event \<Rightarrow> RateLimiter" where
  "limiter_step rl Tick = refill_tick rl"
| "limiter_step rl Acquire = (case Wait rl of Some rl' \<Rightarrow> rl' | None \<Rightarrow> rl)"

definition limiter_run :: "RateLimiter \<Rightarrow> limiter_event list \<Rightarrow> RateLimiter" where
  "limiter_run rl evs = foldl limiter_step rl evs"

text \<open>
  A caller of \<^verbatim>\<open>Wait\<close> running on its own: when the channel is empty it stays blocked
  until the refill goroutine's next tick, and takes the token of that tick. \<open>None\<close>
  when no tick can ever deliver one.
\<close>

definition await_token :: "RateLimiter \<Rightarrow> RateLimiter option" where
  "await_token rl = (case Wait rl of Some rl' \<Rightarrow> Some rl' | None \<Rightarrow> Wait (refill_tick rl))"

section \<open>The processor and its methods\<close>

text \<open>
  \<^verbatim>\<open>AIProcessor\<close>: the configuration and the two shared objects. Three more fields
  observe what the methods do: the number of \<^verbatim>\<open>Wait\<close> calls that returned, the
  requests handed to \<^verbatim>\<open>callOpenAI\<close>, and the backoff waits that were started.
\<close>

record AIProcessor =
  config :: Config
  rateLimiter :: RateLimiter
  tokenTracker :: TokenTracker
  acquired :: nat
  calls :: "OpenAIRequest list"
  sleeps :: "duration list"

text \<open>The defaults of \<^verbatim>\<open>NewAIProcessor\<close>: only a zero field is replaced.\<close>

definition with_defaults :: "Config \<Rightarrow> Config" where
  "with_defaults c =
     c\<lparr>MaxRetries := (if MaxRetries c = 0 then 3 else MaxRetries c),
       InitialRetryDelay :=
         (if InitialRetryDelay c = 0 then 2 * 1000000000 else InitialRetryDelay c),
       MaxRetryDelay := (if MaxRetryDelay c = 0 then 10 * 1000000000 else MaxRetryDelay c),
       Timeout := (if Timeout c = 0 then 60 * 1000000000 else Timeout c),
       BatchSize := (if BatchSize c = 0 then 10 else BatchSize c),
       MaxConcurrent := (if MaxConcurrent c = 0 then 5 else MaxConcurrent c),
       RateLimitPerMin := (if RateLimitPerMin c = 0 then 60 else RateLimitPerMin c)\<rparr>"

definition NewAIProcessor :: "Config \<Rightarrow> abort + AIProcessor" where
  "NewAIProcessor c =
     (let cfg = with_defaults c
      in case NewRateLimiter (RateLimitPerMin cfg) of
           Inl a \<Rightarrow> Inl a
         | Inr rl \<Rightarrow>
             Inr \<lparr>config = cfg, rateLimiter = rl, tokenTracker = NewTokenTracker,
                  acquired = 0, calls = [], sleeps = []\<rparr>)"

text \<open>
  \<^verbatim>\<open>uint(attempt)\<close> reinterprets the 64 bits of the \<^verbatim>\<open>int\<close>; a shift of an
  \<^verbatim>\<open>int64\<close> by 64 or more gives 0, which is what \<open>push_bit\<close> on a 64-bit word does.
\<close>

definition go_uint :: "int \<Rightarrow> nat" where
  "go_uint n = nat (n mod 2 ^ 64)"

definition calculateRetryDelay :: "Config \<Rightarrow> int \<Rightarrow> duration" where
  "calculateRetryDelay cfg attempt =
     (if \<not> ExponentialBackoff cfg then InitialRetryDelay cfg
      else
        let delay = InitialRetryDelay cfg * push_bit (go_uint attempt) 1
        in if MaxRetryDelay cfg <s delay then MaxRetryDelay cfg else delay)"

text \<open>The default system message of \<^verbatim>\<open>callOpenAI\<close>, as the bytes of its UTF-8 text.\<close>

definition default_system_message :: string where
  "default_system_message = map char_of
    ([66, 225, 186, 161, 110, 32, 108, 195, 160, 32, 99, 104, 117, 121, 195, 170, 110,
      32, 103, 105, 97, 32, 112, 104, 195, 162, 110, 32, 116, 195, 173, 99, 104, 32,
      100, 225, 187, 175, 32, 108, 105, 225, 187, 135, 117, 32, 100, 195, 160, 110,
      104, 32, 99, 104, 111, 32, 225, 187, 169, 110, 103, 32, 100, 225, 187, 165, 110,
      103, 32, 103, 105, 195, 161, 111, 32, 100, 225, 187, 165, 99, 32, 116, 195, 160,
      105, 32, 99, 104, 195, 173, 110, 104, 32, 116, 114, 225, 186, 187, 32, 101, 109,
      46, 32, 84, 114, 225, 186, 163, 32, 118, 225, 187, 129, 32, 67, 72, 195, 141, 78,
      72, 32, 88, 195, 129, 67, 32, 196, 145, 225, 187, 139, 110, 104, 32, 100, 225,
      186, 161, 110, 103, 32, 74, 83, 79, 78, 32, 196, 145, 198, 176, 225, 187, 163,
      99, 32, 121, 195, 170, 117, 32, 99, 225, 186, 167, 117, 44, 32, 107, 104, 195,
      180, 110, 103, 32, 116, 104, 195, 170, 109, 32, 109, 97, 114, 107, 100, 111, 119,
      110, 32, 104, 97, 121, 32, 116, 101, 120, 116, 32, 107, 104, 195, 161, 99, 46] :: nat list)"

text \<open>
  What the world outside answers to one \<^verbatim>\<open>callOpenAI\<close>: the results of the library
  calls in the order the source makes them (\<^verbatim>\<open>json.Marshal\<close>,
  \<^verbatim>\<open>http.NewRequestWithContext\<close>, \<^verbatim>\<open>httpClient.Do\<close>, \<^verbatim>\<open>io.ReadAll\<close>,
  \<^verbatim>\<open>json.Unmarshal\<close>). A later field is read only if the earlier calls succeeded.
\<close>

record exchange =
  marshal_err :: "string option"
  new_request_err :: "string option"
  do_err :: "string option"
  status_code :: int
  read_err :: "string option"
  body :: string
  unmarshal :: "string + OpenAIResponse"

definition build_request :: "Config \<Rightarrow> string \<Rightarrow> OpenAIRequest" where
  "build_request cfg prompt =
     (let systemMsg =
            (if SystemMessage cfg = [] then default_system_message else SystemMessage cfg)
      in \<lparr>req_model = Model cfg,
          messages = [\<lparr>role = ''system'', content = systemMsg\<rparr>,
                      \<lparr>role = ''user'', content = prompt\<rparr>],
          response_format = ''json_object'',
          max_completion_tokens = MaxTokens cfg\<rparr>)"

definition call_result :: "exchange \<Rightarrow> go_error + string \<times> Usage" where
  "call_result x =
     (case marshal_err x of Some e \<Rightarrow> Inl (ErrMarshal e) | None \<Rightarrow>
      case new_request_err x of Some e \<Rightarrow> Inl (ErrCreateRequest e) | None \<Rightarrow>
      case do_err x of Some e \<Rightarrow> Inl (ErrRequestFailed e) | None \<Rightarrow>
      case read_err x of Some e \<Rightarrow> Inl (ErrReadResponse e) | None \<Rightarrow>
      case unmarshal x of Inl e \<Rightarrow> Inl (ErrParseResponse e) | Inr apiResp \<Rightarrow>
      case error apiResp of Some e \<Rightarrow> Inl (ErrAPI (err_message e) (err_type e)) | None \<Rightarrow>
      if status_code x \<noteq> 200 then Inl (ErrStatus (status_code x) (body x))
      else
        case choices apiResp of
          [] \<Rightarrow> Inl ErrNoChoices
        | c # cs \<Rightarrow> Inr (content (message c), usage apiResp))"

definition callOpenAI ::
  "AIProcessor \<Rightarrow> exchange \<Rightarrow> string \<Rightarrow> (go_error + string \<times> Usage) \<times> AIProcessor" where
  "callOpenAI ap x prompt =
     (call_result x, ap\<lparr>calls := calls ap @ [build_request (config ap) prompt]\<rparr>)"

text \<open>
  The processor after a token was taken, after the request of an attempt was handed to
  \<^verbatim>\<open>callOpenAI\<close>, and after the backoff wait of a failed attempt was started.
\<close>

definition acquired_token :: "AIProcessor \<Rightarrow> RateLimiter \<Rightarrow> AIProcessor" where
  "acquired_token ap rl = ap\<lparr>rateLimiter := rl, acquired := acquired ap + 1\<rparr>"

definition called :: "AIProcessor \<Rightarrow> RateLimiter \<Rightarrow> string \<Rightarrow> AIProcessor" where
  "called ap rl prompt =
     (acquired_token ap rl)\<lparr>calls := calls ap @ [build_request (config ap) prompt]\<rparr>"

definition slept :: "AIProcessor \<Rightarrow> RateLimiter \<Rightarrow> string \<Rightarrow> duration \<Rightarrow> AIProcessor" where
  "slept ap rl prompt delay = (called ap rl prompt)\<lparr>sleeps := sleeps ap @ [delay]\<rparr>"

text \<open>
  The failure condition in the words of the specification: the HTTP request itself
  fails (building it included), the body cannot be read or parsed, the parsed body
  carries an error object, the status is not 2xx, or there is no choice.
\<close>

definition claimed_failure :: "exchange \<Rightarrow> bool" where
  "claimed_failure x =
     (marshal_err x \<noteq> None \<or> new_request_err x \<noteq> None \<or> do_err x \<noteq> None
      \<or> read_err x \<noteq> None
      \<or> (case unmarshal x of
            Inl e \<Rightarrow> True
          | Inr apiResp \<Rightarrow>
              error apiResp \<noteq> None
              \<or> \<not> (200 \<le> status_code x \<and> status_code x < 300)
              \<or> choices apiResp = []))"

text \<open>The same condition with the status test of the source, \<^verbatim>\<open>!= http.StatusOK\<close>.\<close>

definition failure_of_exchange :: "exchange \<Rightarrow> bool" where
  "failure_of_exchange x =
     (marshal_err x \<noteq> None \<or> new_request_err x \<noteq> None \<or> do_err x \<noteq> None
      \<or> read_err x \<noteq> None
      \<or> (case unmarshal x of
            Inl e \<Rightarrow> True
          | Inr apiResp \<Rightarrow>
              error apiResp \<noteq> None \<or> status_code x \<noteq> 200 \<or> choices apiResp = []))"

section \<open>Processing one item\<close>

text \<open>
  What one item meets while it is processed, by attempt number: whether the context is
  already cancelled when the attempt starts, whether the cancellation arrives during
  the backoff wait that follows the attempt, and what the network answers to the call
  of the attempt.
\<close>

record item_env =
  ctx_err_at :: "int \<Rightarrow> bool"
  ctx_done_in_wait :: "int \<Rightarrow> bool"
  exchange_at :: "int \<Rightarrow> exchange"

text \<open>A failed \<^verbatim>\<open>ProcessResult\<close>: the fields the source does not set keep their zero value.\<close>

definition failure :: "int \<Rightarrow> 'a \<Rightarrow> go_error \<Rightarrow> int \<Rightarrow> 'a ProcessResult" where
  "failure idx item e retries =
     \<lparr>Index = idx, Input = Some item, Output = [], Success = False, Error = Some e,
      Retries = retries, ResultUsage = zero_Usage\<rparr>"

text \<open>
  The loop of \<^verbatim>\<open>processItemWithRetry\<close>, with its variables \<^verbatim>\<open>attempt\<close>,
  \<^verbatim>\<open>lastError\<close> and \<^verbatim>\<open>retryCount\<close>. After the loop the source logs
  \<^verbatim>\<open>lastError.Error()\<close>, which panics on the nil error of a loop that never ran.
\<close>

function retry_loop ::
  "Config \<Rightarrow> item_env \<Rightarrow> int \<Rightarrow> 'a \<Rightarrow> ('a \<Rightarrow> string) \<Rightarrow> int \<Rightarrow> go_error option \<Rightarrow> int \<Rightarrow>
   AIProcessor \<Rightarrow> (abort + 'a ProcessResult) \<times> AIProcessor" where
  "retry_loop cfg env idx item promptTemplate attempt lastError retryCount ap =
     (if attempt \<le> MaxRetries cfg then
        if ctx_err_at env attempt then (Inr (failure idx item ErrContext retryCount), ap)
        else
          case await_token (rateLimiter ap) of
            None \<Rightarrow> (Inl Hangs, ap)
          | Some rl \<Rightarrow>
              let ap1 = ap\<lparr>rateLimiter := rl, acquired := acquired ap + 1\<rparr>;
                  prompt = promptTemplate item
              in if prompt = [] then (Inr (failure idx item ErrEmptyPrompt 0), ap1)
                 else
                   case callOpenAI ap1 (exchange_at env attempt) prompt of
                     (Inr (response, used), ap2) \<Rightarrow>
                       (Inr \<lparr>Index = idx, Input = Some item, Output = response, Success = True,
                             Error = None, Retries = retryCount, ResultUsage = used\<rparr>, ap2)
                   | (Inl err, ap2) \<Rightarrow>
                       if attempt < MaxRetries cfg then
                         let delay = calculateRetryDelay cfg attempt;
                             ap3 = ap2\<lparr>sleeps := sleeps ap2 @ [delay]\<rparr>
                         in if ctx_done_in_wait env attempt
                            then (Inr (failure idx item ErrContext (retryCount + 1)), ap3)
                            else retry_loop cfg env idx item promptTemplate (attempt + 1)
                                   (Some err) (retryCount + 1) ap3
                       else retry_loop cfg env idx item promptTemplate (attempt + 1)
                              (Some err) (retryCount + 1) ap2
      else
        case lastError of
          None \<Rightarrow> (Inl PanicNilDereference, ap)
        | Some e \<Rightarrow> (Inr (failure idx item e retryCount), ap))"
  by pat_completeness auto
termination
  by (relation "measure (\<lambda>(cfg, env, idx, item, pt, attempt, lastError, retryCount, ap).
         nat (MaxRetries cfg + 1 - attempt))") auto

declare retry_loop.simps [simp del]

definition processItemWithRetry ::
  "AIProcessor \<Rightarrow> item_env \<Rightarrow> int \<Rightarrow> 'a \<Rightarrow> ('a \<Rightarrow> string) \<Rightarrow>
   (abort + 'a ProcessResult) \<times> AIProcessor" where
  "processItemWithRetry ap env idx item promptTemplate =
     retry_loop (config ap) env idx item promptTemplate 0 None 0 ap"


text \<open>
  The loop of \<^verbatim>\<open>ProcessSingleWithWeek\<close>; its state is the pair of \<^verbatim>\<open>response\<close> and
  \<^verbatim>\<open>err\<close>. A successful call records the usage and leaves the loop.
\<close>

function single_loop ::
  "Config \<Rightarrow> (int \<Rightarrow> exchange) \<Rightarrow> string \<Rightarrow> string \<Rightarrow> string \<Rightarrow> int \<Rightarrow>
   string \<times> go_error option \<Rightarrow> AIProcessor \<Rightarrow> (string \<times> go_error option) \<times> AIProcessor" where
  "single_loop cfg xs prompt systemMessage weekLabel attempt st ap =
     (if attempt < MaxRetries cfg then
        let ap1 = (if 0 < attempt
                   then ap\<lparr>sleeps := sleeps ap @ [calculateRetryDelay cfg attempt]\<rparr>
                   else ap);
            fullPrompt =
              (if systemMessage \<noteq> []
               then ''System: '' @ systemMessage @ [CHR 0x0A, CHR 0x0A] @ ''User: '' @ prompt
               else prompt)
        in case callOpenAI ap1 (xs attempt) fullPrompt of
             (Inr (response, used), ap2) \<Rightarrow>
               ((response, None),
                ap2\<lparr>tokenTracker :=
                      RecordUsage (tokenTracker ap2) weekLabel (prompt_tokens used)
                        (completion_tokens used)\<rparr>)
           | (Inl err, ap2) \<Rightarrow>
               single_loop cfg xs prompt systemMessage weekLabel (attempt + 1) ([], Some err) ap2
      else (st, ap))"
  by pat_completeness auto
termination
  by (relation "measure (\<lambda>(cfg, xs, prompt, systemMessage, weekLabel, attempt, st, ap).
         nat (MaxRetries cfg - attempt))") auto

declare single_loop.simps [simp del]

definition ProcessSingleWithWeek ::
  "AIProcessor \<Rightarrow> (int \<Rightarrow> exchange) \<Rightarrow> string \<Rightarrow> string \<Rightarrow> string \<Rightarrow>
   (abort + go_error + string) \<times> AIProcessor" where
  "ProcessSingleWithWeek ap xs prompt systemMessage weekLabel =
     (case await_token (rateLimiter ap) of
        None \<Rightarrow> (Inl Hangs, ap)
      | Some rl \<Rightarrow>
          let ap1 = ap\<lparr>rateLimiter := rl, acquired := acquired ap + 1\<rparr>
          in case single_loop (config ap) xs prompt systemMessage weekLabel 0 ([], None) ap1 of
               ((response, Some err), ap2) \<Rightarrow>
                 (Inr (Inl (ErrFailedAfter (MaxRetries (config ap)) err)), ap2)
             | ((response, None), ap2) \<Rightarrow> (Inr (Inr response), ap2))"

section \<open>Processing a batch\<close>

text \<open>
  \<^verbatim>\<open>ProcessBatch\<close> starts one goroutine per item of a batch and waits for all of them.
  The result of the call depends on the goroutines only through what each writes into
  its own slot of \<^verbatim>\<open>results\<close> and through the order in which they run. That order is
  not fixed by the program: \<open>finishes_next\<close> chooses, at each step, which of the
  goroutines still pending runs next (every order of a batch is the choice of some
  \<open>finishes_next\<close>). The interleaving of the goroutines with the main loop is the
  subject of the transition system further below.
\<close>

record batch_env =
  ctx_cancelled_before :: "int \<Rightarrow> bool"
  env_of_item :: "int \<Rightarrow> item_env"
  finishes_next :: "nat \<Rightarrow> nat"

text \<open>The body of the goroutine of item \<open>i\<close>. The progress report only logs.\<close>

definition item_goroutine ::
  "batch_env \<Rightarrow> nat \<Rightarrow> 'a \<Rightarrow> ('a \<Rightarrow> string) \<Rightarrow> 'a ProcessResult list \<times> AIProcessor \<Rightarrow>
   abort + 'a ProcessResult list \<times> AIProcessor" where
  "item_goroutine env i item promptTemplate st =
     (case st of (results, ap) \<Rightarrow>
        if ctx_cancelled_before env (int i)
        then Inr (results[i := \<lparr>Index = int i, Input = Some item, Output = [],
                                 Success = False, Error = Some ErrContext, Retries = 0,
                                 ResultUsage = zero_Usage\<rparr>], ap)
        else
          case processItemWithRetry ap (env_of_item env (int i)) (int i) item promptTemplate of
            (Inl a, ap') \<Rightarrow> Inl a
          | (Inr result, ap') \<Rightarrow> Inr (results[i := result], ap'))"

function run_batch ::
  "batch_env \<Rightarrow> 'a list \<Rightarrow> ('a \<Rightarrow> string) \<Rightarrow> nat list \<Rightarrow> nat \<Rightarrow>
   'a ProcessResult list \<times> AIProcessor \<Rightarrow> abort + ('a ProcessResult list \<times> AIProcessor) \<times> nat" where
  "run_batch env items promptTemplate pending step st =
     (if pending = [] then Inr (st, step)
      else
        let i = pending ! (finishes_next env step mod length pending)
        in case item_goroutine env i (items ! i) promptTemplate st of
             Inl a \<Rightarrow> Inl a
           | Inr st' \<Rightarrow> run_batch env items promptTemplate (remove1 i pending) (step + 1) st')"
  by pat_completeness auto
termination
proof (relation "measure (\<lambda>(env, items, pt, pending, step, st). length pending)")
  show "wf (measure (\<lambda>(env, items, pt, pending, step, st). length pending))" by simp
next
  fix env :: batch_env and items :: "'a list" and promptTemplate :: "'a \<Rightarrow> string"
    and pending :: "nat list" and step :: nat and st :: "'a ProcessResult list \<times> AIProcessor"
    and i st'
  assume ne: "pending \<noteq> []" and i: "i = pending ! (finishes_next env step mod length pending)"
  have "i \<in> set pending" using ne i by simp
  then have "length (remove1 i pending) < length pending"
    using ne by (simp add: length_remove1)
  then show "((env, items, promptTemplate, remove1 i pending, step + 1, st'),
              (env, items, promptTemplate, pending, step, st))
             \<in> measure (\<lambda>(env, items, pt, pending, step, st). length pending)"
    by simp
qed

declare run_batch.simps [simp del]

text \<open>
  The loop over the batches. It is entered with a positive batch size only (see
  \<open>ProcessBatch\<close>); the test is repeated here for the termination proof.
\<close>

function batch_loop ::
  "Config \<Rightarrow> batch_env \<Rightarrow> 'a list \<Rightarrow> ('a \<Rightarrow> string) \<Rightarrow> nat \<Rightarrow> nat \<Rightarrow>
   'a ProcessResult list \<times> AIProcessor \<Rightarrow> abort + 'a ProcessResult list \<times> AIProcessor" where
  "batch_loop cfg env items promptTemplate batchStart step st =
     (if batchStart < length items \<and> 0 < BatchSize cfg then
        let batchEnd = (if batchStart + nat (BatchSize cfg) > length items then length items
                        else batchStart + nat (BatchSize cfg))
        in case run_batch env items promptTemplate [batchStart..<batchEnd] step st of
             Inl a \<Rightarrow> Inl a
           | Inr (st', step') \<Rightarrow>
               batch_loop cfg env items promptTemplate (batchStart + nat (BatchSize cfg)) step' st'
      else Inr st)"
  by pat_completeness auto
termination
  by (relation "measure (\<lambda>(cfg, env, items, pt, batchStart, step, st). length items - batchStart)")
     auto

declare batch_loop.simps [simp del]

text \<open>
  \<^verbatim>\<open>ProcessBatch\<close>. Before the loop, \<^verbatim>\<open>make(chan struct{}, MaxConcurrent)\<close> panics on
  a negative size and the division for \<^verbatim>\<open>totalBatches\<close> panics on a zero batch size.
  With a negative batch size the loop counter runs downwards, and with an unbuffered
  semaphore no goroutine gets past its send: neither case is followed further. After
  the loop, the summary computes \<^verbatim>\<open>duration / time.Duration(len(items))\<close>, an integer
  division that panics when there are no items.
\<close>

definition ProcessBatch ::
  "AIProcessor \<Rightarrow> batch_env \<Rightarrow> 'a list \<Rightarrow> ('a \<Rightarrow> string) \<Rightarrow>
   abort + 'a ProcessResult list \<times> AIProcessor" where
  "ProcessBatch ap env items promptTemplate =
     (let cfg = config ap;
          results = replicate (length items) zero_ProcessResult
      in if MaxConcurrent cfg < 0 then Inl PanicMakeChan
         else if BatchSize cfg = 0 then Inl PanicDivideByZero
         else if BatchSize cfg < 0 \<and> items \<noteq> [] then Inl BatchSizeNegative
         else if MaxConcurrent cfg = 0 \<and> items \<noteq> [] then Inl Hangs
         else
           case batch_loop cfg env items promptTemplate 0 0 (results, ap) of
             Inl a \<Rightarrow> Inl a
           | Inr (results', ap') \<Rightarrow>
               if length items = 0 then Inl PanicDivideByZero else Inr (results', ap'))"

text \<open>
  A processor on which every item reaches an outcome: the loop makes at least one
  attempt and the rate limiter can deliver tokens.
\<close>

definition ready :: "AIProcessor \<Rightarrow> bool" where
  "ready ap \<longleftrightarrow> 0 \<le> MaxRetries (config ap) \<and> 0 < capacity (rateLimiter ap)"

section \<open>The batch loop as a transition system\<close>

text \<open>
  The order in which the main loop of \<^verbatim>\<open>ProcessBatch\<close> and its goroutines take their
  steps is described by a transition system. A goroutine is created by the \<^verbatim>\<open>go\<close>
  statement (\<open>Spawned\<close>), gets a slot of the semaphore and processes its item
  (\<open>Running\<close>), assigns \<^verbatim>\<open>results[index]\<close> (\<open>Written\<close>), and runs its two deferred
  calls in reverse order: it gives the slot back (\<open>Released\<close>) and calls
  \<^verbatim>\<open>wg.Done()\<close> (\<open>Finished\<close>). The main loop is either in the inner loop, about to
  start the goroutine of item \<open>i\<close>, or in \<^verbatim>\<open>wg.Wait()\<close>, or past the outer loop.
\<close>

datatype gstate = NotStarted | Spawned | Running | Written | Released | Finished

datatype main_pc = Spawning nat | Waiting | Returned

text \<open>
  The state: the loop variable \<^verbatim>\<open>batchStart\<close>, the position of the main loop, the
  goroutines by item index, the counter of the wait group, the number of slots taken
  in \<^verbatim>\<open>semaphore\<close>, and the set of indices whose \<^verbatim>\<open>results\<close> slot has been assigned.
\<close>

record sched =
  batch_start :: nat
  main_at :: main_pc
  goroutines :: "nat \<Rightarrow> gstate"
  wg :: nat
  semaphore :: nat
  assigned :: "nat set"

text \<open>\<^verbatim>\<open>batchEnd\<close>, with \<open>B\<close> the batch size and \<open>n\<close> the number of items.\<close>

definition batch_end :: "nat \<Rightarrow> nat \<Rightarrow> nat \<Rightarrow> nat" where
  "batch_end B n bs = (if bs + B > n then n else bs + B)"

definition init_sched :: "nat \<Rightarrow> sched" where
  "init_sched n =
     \<lparr>batch_start = 0, main_at = (if 0 < n then Spawning 0 else Returned),
      goroutines = (\<lambda>j. NotStarted), wg = 0, semaphore = 0, assigned = {}\<rparr>"

text \<open>
  The steps, for batch size \<open>B\<close>, \<open>C\<close> semaphore slots and \<open>n\<close> items. The inner loop
  calls \<^verbatim>\<open>wg.Add(1)\<close> and starts a goroutine; \<^verbatim>\<open>wg.Wait()\<close> returns only when the
  counter is zero, and the outer loop then adds the batch size to \<^verbatim>\<open>batchStart\<close> and
  tests it against \<^verbatim>\<open>len(items)\<close>.
\<close>

inductive sched_step :: "nat \<Rightarrow> nat \<Rightarrow> nat \<Rightarrow> sched \<Rightarrow> sched \<Rightarrow> bool" for B C n where
  spawn:
    "main_at s = Spawning i \<Longrightarrow> i < batch_end B n (batch_start s) \<Longrightarrow>
     sched_step B C n s
       (s\<lparr>goroutines := (goroutines s)(i := Spawned), wg := wg s + 1,
          main_at := Spawning (i + 1)\<rparr>)"
| spawned_all:
    "main_at s = Spawning i \<Longrightarrow> \<not> i < batch_end B n (batch_start s) \<Longrightarrow>
     sched_step B C n s (s\<lparr>main_at := Waiting\<rparr>)"
| acquire:
    "goroutines s j = Spawned \<Longrightarrow> semaphore s < C \<Longrightarrow>
     sched_step B C n s
       (s\<lparr>goroutines := (goroutines s)(j := Running), semaphore := semaphore s + 1\<rparr>)"
| write_result:
    "goroutines s j = Running \<Longrightarrow>
     sched_step B C n s
       (s\<lparr>goroutines := (goroutines s)(j := Written), assigned := insert j (assigned s)\<rparr>)"
| release:
    "goroutines s j = Written \<Longrightarrow>
     sched_step B C n s
       (s\<lparr>goroutines := (goroutines s)(j := Released), semaphore := semaphore s - 1\<rparr>)"
| wg_done:
    "goroutines s j = Released \<Longrightarrow>
     sched_step B C n s (s\<lparr>goroutines := (goroutines s)(j := Finished), wg := wg s - 1\<rparr>)"
| next_batch:
    "main_at s = Waiting \<Longrightarrow> wg s = 0 \<Longrightarrow> batch_start s + B < n \<Longrightarrow>
     sched_step B C n s
       (s\<lparr>batch_start := batch_start s + B, main_at := Spawning (batch_start s + B)\<rparr>)"
| loop_exit:
    "main_at s = Waiting \<Longrightarrow> wg s = 0 \<Longrightarrow> \<not> batch_start s + B < n \<Longrightarrow>
     sched_step B C n s (s\<lparr>batch_start := batch_start s + B, main_at := Returned\<rparr>)"

text \<open>The states a run can be in.\<close>

inductive reachable :: "nat \<Rightarrow> nat \<Rightarrow> nat \<Rightarrow> sched \<Rightarrow> bool" for B C n where
  start: "reachable B C n (init_sched n)"
| after: "reachable B C n s \<Longrightarrow> sched_step B C n s s' \<Longrightarrow> reachable B C n s'"

text \<open>
  The invariant of the runs: the wait-group counter is the number of goroutines under
  way; a goroutine past its assignment has its slot assigned; every item below
  \<^verbatim>\<open>batchStart\<close> is finished; \<^verbatim>\<open>batchStart\<close> is a multiple of the batch size; and the
  goroutines started so far are exactly those below the position of the main loop.
\<close>

definition unfinished :: "(nat \<Rightarrow> gstate) \<Rightarrow> nat set" where
  "unfinished g = {j. g j \<noteq> NotStarted \<and> g j \<noteq> Finished}"

definition started_below :: "(nat \<Rightarrow> gstate) \<Rightarrow> nat \<Rightarrow> bool" where
  "started_below g k \<longleftrightarrow> (\<forall>j. g j \<noteq> NotStarted \<longleftrightarrow> j < k)"

fun main_inv :: "nat \<Rightarrow> nat \<Rightarrow> main_pc \<Rightarrow> nat \<Rightarrow> (nat \<Rightarrow> gstate) \<Rightarrow> bool" where
  "main_inv B n (Spawning i) bs g \<longleftrightarrow>
     bs \<le> i \<and> i \<le> batch_end B n bs \<and> bs < n \<and> started_below g i"
| "main_inv B n Waiting bs g \<longleftrightarrow> bs < n \<and> started_below g (batch_end B n bs)"
| "main_inv B n Returned bs g \<longleftrightarrow> n \<le> bs \<and> started_below g n"

definition sched_inv :: "nat \<Rightarrow> nat \<Rightarrow> sched \<Rightarrow> bool" where
  "sched_inv B n s \<longleftrightarrow>
     finite (unfinished (goroutines s)) \<and> wg s = card (unfinished (goroutines s))
     \<and> (\<forall>j. goroutines s j \<in> {Written, Released, Finished} \<longrightarrow> j \<in> assigned s)
     \<and> (\<forall>j. j < batch_start s \<and> j < n \<longrightarrow> goroutines s j = Finished)
     \<and> B dvd batch_start s
     \<and> main_inv B n (main_at s) (batch_start s) (goroutines s)"

section \<open>Concrete inputs\<close>

definition example_calls :: "usage_call list" where
  "example_calls = [(''w1'', 10, 5), (''w2'', 7, 3), (''w1'', 1, 2)]"

definition limiter60 :: RateLimiter where
  "limiter60 = \<lparr>tokens = 60, capacity = 60, refillRate = 1000000000\<rparr>"

text \<open>
  A configuration with the default delays of \<^verbatim>\<open>NewAIProcessor\<close> (2 s and 10 s),
  exponential backoff and forty retries.
\<close>

definition backoff_config :: Config where
  "backoff_config =
     \<lparr>APIKey = ''key'', Model = ''gpt-4o'', MaxTokens = 1000, Timeout = 60 * 1000000000,
      SystemMessage = ''sys'', BatchSize = 10, MaxConcurrent = 5, RateLimitPerMin = 60,
      MaxRetries = 40, InitialRetryDelay = 2 * 1000000000, MaxRetryDelay = 10 * 1000000000,
      ExponentialBackoff = True, TrackTokenUsage = True, TrackTiming = False,
      ShowProgress = False\<rparr>"

text \<open>Answers of the network used as concrete inputs, and a processor to receive them.\<close>

definition example_response :: OpenAIResponse where
  "example_response =
     \<lparr>id = ''chatcmpl-1'', object = ''chat.completion'', created = 1700000000,
      model = ''gpt-4o'',
      choices = [\<lparr>index = 0, message = \<lparr>role = ''assistant'', content = ''{}''\<rparr>,
                  finish_reason = ''stop''\<rparr>],
      usage = \<lparr>prompt_tokens = 10, completion_tokens = 5, total_tokens = 15\<rparr>,
      error = None\<rparr>"

definition answer :: "int \<Rightarrow> exchange" where
  "answer status =
     \<lparr>marshal_err = None, new_request_err = None, do_err = None, status_code = status,
      read_err = None, body = ''{...}'', unmarshal = Inr example_response\<rparr>"

definition timeout_exchange :: exchange where
  "timeout_exchange =
     \<lparr>marshal_err = None, new_request_err = None, do_err = Some ''timeout'', status_code = 0,
      read_err = None, body = [], unmarshal = Inl ''unexpected end of JSON input''\<rparr>"

definition processor_with :: "Config \<Rightarrow> AIProcessor" where
  "processor_with cfg =
     \<lparr>config = cfg, rateLimiter = limiter60, tokenTracker = NewTokenTracker, acquired = 0,
      calls = [], sleeps = []\<rparr>"

text \<open>
  Items, render functions and environments used as concrete inputs: an item is a name,
  every call times out in \<open>failing_env\<close> and is answered with status 200 in
  \<open>success_env\<close>.
\<close>

definition render_kid :: "string \<Rightarrow> string" where
  "render_kid name = ''Report for '' @ name"

definition two_retries_config :: Config where
  "two_retries_config = backoff_config\<lparr>MaxRetries := 2\<rparr>"

definition render_nothing :: "string \<Rightarrow> string" where
  "render_nothing name = []"

definition failing_env :: item_env where
  "failing_env =
     \<lparr>ctx_err_at = (\<lambda>k. False), ctx_done_in_wait = (\<lambda>k. False),
      exchange_at = (\<lambda>k. timeout_exchange)\<rparr>"

definition success_env :: item_env where
  "success_env =
     \<lparr>ctx_err_at = (\<lambda>k. False), ctx_done_in_wait = (\<lambda>k. False),
      exchange_at = (\<lambda>k. answer 200)\<rparr>"

text \<open>
  A batch environment in which the context is never cancelled and every call succeeds;
  the \<open>k\<close>-th goroutine to run is the one at position \<open>k\<close> among those pending.
\<close>

definition calm_env :: batch_env where
  "calm_env =
     \<lparr>ctx_cancelled_before = (\<lambda>i. False), env_of_item = (\<lambda>i. success_env),
      finishes_next = (\<lambda>k. k)\<rparr>"

text \<open>
  A state of the run with batch size 1 on two items: the goroutine of item 0 has
  finished, the main loop has passed the barrier and started the goroutine of item 1.
\<close>

definition second_batch_state :: sched where
  "second_batch_state =
     \<lparr>batch_start = 1, main_at = Spawning 2,
      goroutines = (\<lambda>j. NotStarted)(0 := Finished, 1 := Spawned),
      wg = 1, semaphore = 0, assigned = {0}\<rparr>"

section \<open>Token tracker: summaries\<close>

lemma record_all_snoc:
  "record_all tt (cs @ [(l, p, c)]) = RecordUsage (record_all tt cs) l p c"
  by (simp add: record_all_def)

lemma sums_of_Nil: "sums_of [] = zero_TokenUsage"
  by (simp add: sums_of_def zero_TokenUsage_def sum_prompt_def sum_completion_def
      sum_total_def)

lemma sums_of_snoc: "sums_of (cs @ [(l, p, c)]) = add_usage (sums_of cs) (usage_of (l, p, c))"
  by (simp add: sums_of_def add_usage_def usage_of_def sum_prompt_def sum_completion_def
      sum_total_def)

lemma totalUsage_record_all: "totalUsage (record_all NewTokenTracker cs) = sums_of cs"
proof (induction cs rule: rev_induct)
  case Nil
  show ?case by (simp add: record_all_def NewTokenTracker_def sums_of_Nil)
next
  case (snoc x xs)
  obtain l p c where x: "x = (l, p, c)" by (cases x) auto
  show ?case unfolding x record_all_snoc sums_of_snoc using snoc
    by (simp add: RecordUsage_def add_usage_def usage_of_def Let_def)
qed

lemma week_usages_record_all:
  "week_usages (record_all NewTokenTracker cs) l = map usage_of (under_label l cs)"
proof (induction cs rule: rev_induct)
  case Nil
  show ?case by (simp add: record_all_def NewTokenTracker_def week_usages_def under_label_def)
next
  case (snoc x xs)
  obtain l' p c where x: "x = (l', p, c)" by (cases x) auto
  show ?case unfolding x record_all_snoc using snoc
    by (auto simp: RecordUsage_def Let_def week_usages_def under_label_def usage_of_def)
qed

lemma foldl_add_usage:
  "foldl add_usage acc (map usage_of cs) = add_usage acc (sums_of cs)"
proof (induction cs rule: rev_induct)
  case Nil
  show ?case by (simp add: sums_of_Nil add_usage_def zero_TokenUsage_def)
next
  case (snoc x xs)
  obtain l p c where x: "x = (l, p, c)" by (cases x) auto
  show ?case unfolding x using snoc by (simp add: sums_of_snoc add_usage_def)
qed

lemma add_usage_zero: "add_usage zero_TokenUsage u = u"
  by (simp add: add_usage_def zero_TokenUsage_def)

lemma GetWeekSummary_record_all:
  "GetWeekSummary (record_all NewTokenTracker cs) l = sums_of (under_label l cs)"
  by (simp add: GetWeekSummary_def week_usages_record_all foldl_add_usage add_usage_zero
      sums_of_Nil)

lemma under_label_unseen: "l \<notin> fst ` set cs \<Longrightarrow> under_label l cs = []"
  by (induction cs) (auto simp: under_label_def)

text \<open>
  The sums above are sums of Go \<^verbatim>\<open>int\<close>s. As long as the counts are not negative and
  their true sum stays below \<open>2^63\<close>, the signed value of the word sum is that sum.
\<close>

lemma sint_sum_list:
  "(\<forall>w\<in>set ws. 0 \<le> sint w) \<Longrightarrow> sum_list (map sint ws) < 2 ^ 63 \<Longrightarrow>
   sint (sum_list ws :: go_int) = sum_list (map sint ws)"
proof (induction ws)
  case Nil
  show ?case by simp
next
  case (Cons w ws)
  have nn: "0 \<le> sum_list (map sint ws)"
    using Cons.prems(1) by (intro sum_list_nonneg) auto
  have w0: "0 \<le> sint w" using Cons.prems(1) by simp
  have lt: "sum_list (map sint ws) < 2 ^ 63" using Cons.prems(2) w0 by simp
  have ih: "sint (sum_list ws) = sum_list (map sint ws)"
    using Cons.IH Cons.prems(1) lt by simp
  have "sint (w + sum_list ws) = signed_take_bit 63 (sint w + sint (sum_list ws))"
    by (simp add: sint_word_ariths)
  also have "\<dots> = sint w + sum_list (map sint ws)"
    unfolding ih using Cons.prems(2) w0 nn by (simp add: signed_take_bit_int_eq_self)
  finally show ?case by simp
qed

lemma sum_prompt_no_overflow:
  assumes "\<forall>(l, p, c)\<in>set cs. 0 \<le> sint p"
    and "(\<Sum>(l, p, c)\<leftarrow>cs. sint p) < 2 ^ 63"
  shows "sint (PromptTokens (GetTotalSummary (record_all NewTokenTracker cs)))
         = (\<Sum>(l, p, c)\<leftarrow>cs. sint p)"
proof -
  define ps where "ps = map (\<lambda>(l, p, c). p) cs"
  have eq: "map sint ps = map (\<lambda>(l, p, c). sint p) cs"
    unfolding ps_def by (induction cs) auto
  have nn: "\<forall>w\<in>set ps. 0 \<le> sint w"
    using assms(1) unfolding ps_def by auto
  have "sint (sum_list ps) = sum_list (map sint ps)"
    using nn assms(2) unfolding eq [symmetric] by (rule sint_sum_list)
  then show ?thesis
    by (simp add: GetTotalSummary_def totalUsage_record_all sums_of_def sum_prompt_def eq
        ps_def [symmetric])
qed

text \<open>
  C8. After any finite sequence of \<^verbatim>\<open>RecordUsage(label, p, c)\<close> calls on a fresh
  tracker, \<^verbatim>\<open>GetTotalSummary\<close> returns the sums of \<open>p\<close>, of \<open>c\<close> and of \<open>p + c\<close> over
  all calls; \<^verbatim>\<open>GetWeekSummary(label)\<close> returns the same three sums over exactly the
  calls made under that label, and the zero-valued \<^verbatim>\<open>TokenUsage\<close> for a label that
  was never recorded. The sums are those of Go's \<^verbatim>\<open>int\<close>.
\<close>

theorem TokenTracker_summaries:
  "GetTotalSummary (record_all NewTokenTracker cs) = sums_of cs
   \<and> GetWeekSummary (record_all NewTokenTracker cs) l = sums_of (under_label l cs)
   \<and> (l \<notin> fst ` set cs \<longrightarrow>
        GetWeekSummary (record_all NewTokenTracker cs) l = zero_TokenUsage)"
  by (simp add: GetTotalSummary_def totalUsage_record_all GetWeekSummary_record_all
      under_label_unseen sums_of_Nil)

theorem TokenTracker_summaries_witness:
  "''w3'' \<notin> fst ` set example_calls
   \<and> GetTotalSummary (record_all NewTokenTracker example_calls)
       = \<lparr>PromptTokens = 18, CompletionTokens = 10, TotalTokens = 28\<rparr>
   \<and> GetWeekSummary (record_all NewTokenTracker example_calls) ''w1''
       = \<lparr>PromptTokens = 11, CompletionTokens = 7, TotalTokens = 18\<rparr>
   \<and> GetWeekSummary (record_all NewTokenTracker example_calls) ''w3'' = zero_TokenUsage"
proof -
  have unseen: "''w3'' \<notin> fst ` set example_calls"
    by (simp add: example_calls_def)
  have s1: "sums_of example_calls
            = \<lparr>PromptTokens = 18, CompletionTokens = 10, TotalTokens = 28\<rparr>"
    by (simp add: example_calls_def sums_of_def sum_prompt_def sum_completion_def
        sum_total_def)
  have s2: "sums_of (under_label ''w1'' example_calls)
            = \<lparr>PromptTokens = 11, CompletionTokens = 7, TotalTokens = 18\<rparr>"
    by (simp add: example_calls_def under_label_def sums_of_def sum_prompt_def
        sum_completion_def sum_total_def)
  have t: "GetTotalSummary (record_all NewTokenTracker example_calls) = sums_of example_calls"
    and w1: "GetWeekSummary (record_all NewTokenTracker example_calls) ''w1''
             = sums_of (under_label ''w1'' example_calls)"
    using TokenTracker_summaries [of example_calls "''w1''"] by simp_all
  have w3: "GetWeekSummary (record_all NewTokenTracker example_calls) ''w3'' = zero_TokenUsage"
    using TokenTracker_summaries [of example_calls "''w3''"] unseen by blast
  show ?thesis using unseen t w1 w3 s1 s2 by simp
qed

section \<open>Rate limiter: the token pool\<close>

lemma fill_tokens_room:
  "tokens rl + n \<le> capacity rl \<Longrightarrow> fill_tokens n rl = Some (rl\<lparr>tokens := tokens rl + n\<rparr>)"
  by (induction n arbitrary: rl) (auto simp: send_token_def)

lemma NewRateLimiter_Inr:
  assumes "NewRateLimiter rpm = Inr rl"
  shows "0 < rpm" and "rl = \<lparr>tokens = nat rpm, capacity = nat rpm, refillRate = 60000000000 div rpm\<rparr>"
    and "0 < refillRate rl"
  using assms
  by (auto simp: NewRateLimiter_def fill_tokens_room split: if_splits option.splits)

lemma NewRateLimiter_returns:
  "(\<exists>rl. NewRateLimiter rpm = Inr rl) \<longleftrightarrow> 0 < rpm \<and> rpm \<le> 60000000000"
proof -
  have "0 < rpm \<Longrightarrow> (0 < 60000000000 div rpm) = (rpm \<le> 60000000000)"
    using pos_imp_zdiv_pos_iff [of rpm 60000000000] by simp
  then show ?thesis
    by (auto simp: NewRateLimiter_def fill_tokens_room not_le split: if_splits)
qed

lemma limiter_step_inv:
  "tokens rl \<le> capacity rl \<Longrightarrow>
   tokens (limiter_step rl ev) \<le> capacity (limiter_step rl ev)
   \<and> capacity (limiter_step rl ev) = capacity rl"
  by (cases ev) (auto simp: refill_tick_def send_token_def Wait_def)

lemma limiter_run_inv:
  "tokens rl \<le> capacity rl \<Longrightarrow>
   tokens (limiter_run rl evs) \<le> capacity (limiter_run rl evs)
   \<and> capacity (limiter_run rl evs) = capacity rl"
proof (induction evs rule: rev_induct)
  case Nil
  then show ?case by (simp add: limiter_run_def)
next
  case (snoc ev evs)
  then show ?case
    using limiter_step_inv [of "limiter_run rl evs" ev] by (simp add: limiter_run_def)
qed

text \<open>
  C7. The pool of the rate limiter that \<^verbatim>\<open>NewRateLimiter\<close> returns starts full, with
  exactly as many tokens as its capacity, the configured requests per minute. After
  any run of refill ticks and acquisitions the pool holds at most its capacity; a tick
  adds exactly one token when the pool is below capacity and changes nothing when it
  is full; \<^verbatim>\<open>Wait\<close> is blocked exactly while the pool is empty, takes exactly one
  token otherwise, and is released by the next tick at the latest. \<^verbatim>\<open>Wait\<close> has no
  error result.
\<close>

theorem RateLimiter_pool:
  assumes "NewRateLimiter requestsPerMinute = Inr rl"
  shows "tokens rl = nat requestsPerMinute \<and> capacity rl = nat requestsPerMinute
    \<and> 0 < capacity rl
    \<and> (\<forall>evs. let s = limiter_run rl evs in
          tokens s \<le> capacity s \<and> capacity s = capacity rl
          \<and> (tokens s < capacity s \<longrightarrow> refill_tick s = s\<lparr>tokens := tokens s + 1\<rparr>)
          \<and> (tokens s = capacity s \<longrightarrow> refill_tick s = s)
          \<and> (Wait s = None \<longleftrightarrow> tokens s = 0)
          \<and> (0 < tokens s \<longrightarrow> Wait s = Some (s\<lparr>tokens := tokens s - 1\<rparr>))
          \<and> Wait (refill_tick s) \<noteq> None)"
proof -
  have rl: "tokens rl = nat requestsPerMinute" "capacity rl = nat requestsPerMinute"
    and pos: "0 < requestsPerMinute"
    using NewRateLimiter_Inr [OF assms] by simp_all
  have full: "tokens rl \<le> capacity rl" using rl by simp
  have run: "\<And>evs. tokens (limiter_run rl evs) \<le> capacity (limiter_run rl evs)
                  \<and> capacity (limiter_run rl evs) = capacity rl"
    by (rule limiter_run_inv [OF full])
  have cap: "0 < capacity rl" using rl pos by simp
  have main: "let s = limiter_run rl evs in
          tokens s \<le> capacity s \<and> capacity s = capacity rl
          \<and> (tokens s < capacity s \<longrightarrow> refill_tick s = s\<lparr>tokens := tokens s + 1\<rparr>)
          \<and> (tokens s = capacity s \<longrightarrow> refill_tick s = s)
          \<and> (Wait s = None \<longleftrightarrow> tokens s = 0)
          \<and> (0 < tokens s \<longrightarrow> Wait s = Some (s\<lparr>tokens := tokens s - 1\<rparr>))
          \<and> Wait (refill_tick s) \<noteq> None" for evs
  proof -
    define s where "s = limiter_run rl evs"
    have le: "tokens s \<le> capacity s" and eq: "capacity s = capacity rl"
      using run [of evs] unfolding s_def by simp_all
    have pos': "0 < capacity s" using eq cap by simp
    have "tokens s \<le> capacity s \<and> capacity s = capacity rl
          \<and> (tokens s < capacity s \<longrightarrow> refill_tick s = s\<lparr>tokens := tokens s + 1\<rparr>)
          \<and> (tokens s = capacity s \<longrightarrow> refill_tick s = s)
          \<and> (Wait s = None \<longleftrightarrow> tokens s = 0)
          \<and> (0 < tokens s \<longrightarrow> Wait s = Some (s\<lparr>tokens := tokens s - 1\<rparr>))
          \<and> Wait (refill_tick s) \<noteq> None"
      using le eq pos' by (auto simp: refill_tick_def send_token_def Wait_def)
    then show ?thesis unfolding s_def Let_def .
  qed
  from rl cap main show ?thesis by blast
qed

lemma NewRateLimiter_60: "NewRateLimiter 60 = Inr limiter60"
  by (simp add: NewRateLimiter_def fill_tokens_room limiter60_def)

theorem RateLimiter_pool_witness:
  "NewRateLimiter 60 = Inr limiter60 \<and> tokens limiter60 = 60 \<and> capacity limiter60 = 60
   \<and> tokens (limiter_run limiter60 [Tick, Acquire, Acquire, Tick]) = 59
   \<and> tokens (limiter_run limiter60 [Tick, Acquire, Acquire, Tick])
      \<le> capacity (limiter_run limiter60 [Tick, Acquire, Acquire, Tick])
   \<and> Wait (refill_tick (limiter_run limiter60 [Tick, Acquire, Acquire, Tick])) \<noteq> None"
proof -
  have new: "NewRateLimiter 60 = Inr limiter60"
    by (simp add: NewRateLimiter_def fill_tokens_room limiter60_def)
  have run: "tokens (limiter_run limiter60 [Tick, Acquire, Acquire, Tick]) = 59"
    by (simp add: limiter_run_def limiter60_def refill_tick_def send_token_def Wait_def)
  note pool = RateLimiter_pool [OF new, unfolded Let_def]
  have init: "tokens limiter60 = nat 60" "capacity limiter60 = nat 60"
    using pool by blast+
  have le: "tokens (limiter_run limiter60 [Tick, Acquire, Acquire, Tick])
      \<le> capacity (limiter_run limiter60 [Tick, Acquire, Acquire, Tick])"
    using pool by blast
  have rel: "Wait (refill_tick (limiter_run limiter60 [Tick, Acquire, Acquire, Tick])) \<noteq> None"
    using pool by blast
  have t: "tokens limiter60 = 60" and c: "capacity limiter60 = 60"
    using init by simp_all
  from new t c run le rel show ?thesis by blast
qed

section \<open>The constructor\<close>

text \<open>
  The processors that \<^verbatim>\<open>NewAIProcessor\<close> builds have a rate limiter of positive
  capacity and, unless a negative maximum is configured, make at least one attempt
  per item. The processors used as concrete inputs are built by it.
\<close>

lemma NewAIProcessor_Inr:
  assumes "NewAIProcessor c = Inr ap"
  shows "config ap = with_defaults c" and "0 < capacity (rateLimiter ap)"
    and "tokenTracker ap = NewTokenTracker" and "calls ap = []"
proof -
  obtain rl where rl: "NewRateLimiter (RateLimitPerMin (with_defaults c)) = Inr rl"
    and ap: "ap = \<lparr>config = with_defaults c, rateLimiter = rl, tokenTracker = NewTokenTracker,
                   acquired = 0, calls = [], sleeps = []\<rparr>"
    using assms by (auto simp: NewAIProcessor_def Let_def split: sum.splits)
  have "0 < capacity rl" using NewRateLimiter_Inr(1,2) [OF rl] by simp
  then show "config ap = with_defaults c" and "0 < capacity (rateLimiter ap)"
    and "tokenTracker ap = NewTokenTracker" and "calls ap = []"
    using ap by simp_all
qed

lemma NewAIProcessor_ready:
  assumes "NewAIProcessor c = Inr ap" and "0 \<le> MaxRetries c"
  shows "ready ap"
  using NewAIProcessor_Inr(1,2) [OF assms(1)] assms(2)
  by (simp add: ready_def with_defaults_def)

lemma NewAIProcessor_backoff_config:
  "NewAIProcessor backoff_config = Inr (processor_with backoff_config)"
  by (simp add: NewAIProcessor_def with_defaults_def backoff_config_def NewRateLimiter_60
      processor_with_def)

lemma NewAIProcessor_two_retries_config:
  "NewAIProcessor two_retries_config = Inr (processor_with two_retries_config)"
  by (simp add: NewAIProcessor_def with_defaults_def two_retries_config_def backoff_config_def
      NewRateLimiter_60 processor_with_def)

section \<open>Retry delay\<close>

lemma calculateRetryDelay_fixed:
  "\<not> ExponentialBackoff cfg \<Longrightarrow> calculateRetryDelay cfg k = InitialRetryDelay cfg"
  by (simp add: calculateRetryDelay_def)

lemma go_uint_nonneg: "0 \<le> k \<Longrightarrow> k < 2 ^ 64 \<Longrightarrow> go_uint k = nat k"
  by (simp add: go_uint_def)

lemma sint_times_power:
  fixes d :: duration
  assumes "0 \<le> sint d" and "sint d * 2 ^ n < 2 ^ 63"
  shows "sint (d * push_bit n 1) = sint d * 2 ^ n"
proof -
  have w: "d * push_bit n 1 = word_of_int (sint d * 2 ^ n)"
    by (simp add: push_bit_eq_mult)
  have lo: "- (2 ^ 63) \<le> sint d * 2 ^ n"
  proof -
    have "0 \<le> sint d * 2 ^ n" using assms(1) by simp
    moreover have "- ((2::int) ^ 63) \<le> 0" by simp
    ultimately show ?thesis by (rule order_trans [rotated])
  qed
  have "sint (word_of_int (sint d * 2 ^ n) :: duration) = signed_take_bit 63 (sint d * 2 ^ n)"
    by (simp only: signed_of_int) simp
  also have "\<dots> = sint d * 2 ^ n"
    using lo assms(2) by (rule signed_take_bit_int_eq_self)
  finally show ?thesis unfolding w .
qed

lemma calculateRetryDelay_backoff:
  assumes "ExponentialBackoff cfg" and "0 \<le> k" and "k < 2 ^ 64"
    and "0 \<le> sint (InitialRetryDelay cfg)"
    and "sint (InitialRetryDelay cfg) * 2 ^ nat k < 2 ^ 63"
  shows "sint (calculateRetryDelay cfg k)
         = min (sint (InitialRetryDelay cfg) * 2 ^ nat k) (sint (MaxRetryDelay cfg))"
  using assms sint_times_power [of "InitialRetryDelay cfg" "nat k"]
  by (simp add: calculateRetryDelay_def go_uint_nonneg word_sless_alt Let_def min_def)

lemma calculateRetryDelay_mono:
  assumes "ExponentialBackoff cfg" and "0 \<le> j" and "j \<le> k" and "k < 2 ^ 64"
    and "0 \<le> sint (InitialRetryDelay cfg)"
    and "sint (InitialRetryDelay cfg) * 2 ^ nat k < 2 ^ 63"
  shows "sint (calculateRetryDelay cfg j) \<le> sint (calculateRetryDelay cfg k)"
proof -
  have pw: "(2::int) ^ nat j \<le> 2 ^ nat k" using assms(2,3) by (simp add: power_increasing)
  then have le: "sint (InitialRetryDelay cfg) * 2 ^ nat j \<le> sint (InitialRetryDelay cfg) * 2 ^ nat k"
    using assms(5) by (simp add: mult_left_mono)
  then have lt: "sint (InitialRetryDelay cfg) * 2 ^ nat j < 2 ^ 63" using assms(6) by simp
  have "sint (calculateRetryDelay cfg j)
         = min (sint (InitialRetryDelay cfg) * 2 ^ nat j) (sint (MaxRetryDelay cfg))"
    using assms lt by (intro calculateRetryDelay_backoff) auto
  moreover have "sint (calculateRetryDelay cfg k)
         = min (sint (InitialRetryDelay cfg) * 2 ^ nat k) (sint (MaxRetryDelay cfg))"
    using assms by (intro calculateRetryDelay_backoff) auto
  ultimately show ?thesis using le by simp
qed

text \<open>
  C4. With exponential backoff, \<^verbatim>\<open>calculateRetryDelay(k)\<close> is meant to be
  \<open>min (initialDelay * 2^k) maxDelay\<close>, non-decreasing in \<open>k\<close>. The lemmas above
  prove this as long as \<open>initialDelay * 2^k\<close> fits into an \<^verbatim>\<open>int64\<close>. Beyond that the
  product wraps: with the default delays, attempt 33 gives a negative delay where the
  formula gives 10 s, below the delay of attempt 32.
\<close>

theorem calculateRetryDelay_wraps:
  "ExponentialBackoff backoff_config
   \<and> sint (calculateRetryDelay backoff_config 33) = - 1266874889709551616
   \<and> min (sint (InitialRetryDelay backoff_config) * 2 ^ 33)
          (sint (MaxRetryDelay backoff_config)) = 10000000000
   \<and> sint (calculateRetryDelay backoff_config 32) = 10000000000
   \<and> sint (calculateRetryDelay backoff_config 33) < sint (calculateRetryDelay backoff_config 32)"
  by (simp add: calculateRetryDelay_def backoff_config_def go_uint_def word_sless_alt)

section \<open>The transport call\<close>

lemma call_result_failure: "isl (call_result x) \<longleftrightarrow> failure_of_exchange x"
  by (auto simp: call_result_def failure_of_exchange_def
      split: option.splits sum.splits list.splits)

lemma call_result_success:
  "\<not> failure_of_exchange x \<Longrightarrow>
   \<exists>apiResp c cs. unmarshal x = Inr apiResp \<and> choices apiResp = c # cs
      \<and> call_result x = Inr (content (message c), usage apiResp)"
  by (auto simp: call_result_def failure_of_exchange_def
      split: option.splits sum.splits list.splits)

text \<open>
  C5, as stated, does not hold: an answer with status 201 (a 2xx status), a readable
  and well-formed body, no error object and one choice is none of the claimed
  failures, and \<^verbatim>\<open>callOpenAI\<close> returns an error for it.
\<close>

theorem callOpenAI_status_201_counterexample:
  "fst (callOpenAI (processor_with backoff_config) (answer 201) ''prompt'')
     = Inl (ErrStatus 201 ''{...}'')
   \<and> \<not> claimed_failure (answer 201)"
  by (simp add: callOpenAI_def call_result_def answer_def example_response_def
      claimed_failure_def)

text \<open>
  C5, amended. \<^verbatim>\<open>callOpenAI\<close> returns an error if and only if the request cannot be
  built or sent, the response body cannot be read or parsed as JSON, the parsed body
  carries an error object, the HTTP status is not 200, or the choices array is empty;
  otherwise it returns the content of the first choice as it is, together with the
  reported token usage.
\<close>

theorem callOpenAI_result:
  "(isl (fst (callOpenAI ap x prompt)) \<longleftrightarrow> failure_of_exchange x)
   \<and> (\<not> failure_of_exchange x \<longrightarrow>
        (\<exists>apiResp c cs. unmarshal x = Inr apiResp \<and> choices apiResp = c # cs
           \<and> fst (callOpenAI ap x prompt) = Inr (content (message c), usage apiResp)))"
  using call_result_failure [of x] call_result_success [of x]
  by (simp add: callOpenAI_def)

theorem callOpenAI_result_witness:
  "\<not> failure_of_exchange (answer 200)
   \<and> fst (callOpenAI (processor_with backoff_config) (answer 200) ''prompt'')
       = Inr (''{}'', \<lparr>prompt_tokens = 10, completion_tokens = 5, total_tokens = 15\<rparr>)
   \<and> failure_of_exchange timeout_exchange
   \<and> isl (fst (callOpenAI (processor_with backoff_config) timeout_exchange ''prompt''))"
proof -
  have ok: "\<not> failure_of_exchange (answer 200)"
    by (simp add: failure_of_exchange_def answer_def example_response_def)
  have bad: "failure_of_exchange timeout_exchange"
    by (simp add: failure_of_exchange_def timeout_exchange_def)
  from callOpenAI_result [of "processor_with backoff_config" "answer 200" "''prompt''"] ok
  obtain apiResp c cs where u: "unmarshal (answer 200) = Inr apiResp"
    and ch: "choices apiResp = c # cs"
    and r: "fst (callOpenAI (processor_with backoff_config) (answer 200) ''prompt'')
            = Inr (content (message c), usage apiResp)"
    by blast
  have a: "apiResp = example_response" using u by (simp add: answer_def)
  have c: "c = \<lparr>index = 0, message = \<lparr>role = ''assistant'', content = ''{}''\<rparr>,
                  finish_reason = ''stop''\<rparr>"
    using ch unfolding a by (simp add: example_response_def)
  have r': "fst (callOpenAI (processor_with backoff_config) (answer 200) ''prompt'')
       = Inr (''{}'', \<lparr>prompt_tokens = 10, completion_tokens = 5, total_tokens = 15\<rparr>)"
    using r unfolding a c by (simp add: example_response_def)
  have e: "isl (fst (callOpenAI (processor_with backoff_config) timeout_exchange ''prompt''))"
    using callOpenAI_result [of "processor_with backoff_config" timeout_exchange "''prompt''"] bad
    by blast
  from ok r' bad e show ?thesis by blast
qed

section \<open>The retry loop of one item\<close>

lemma await_token_capacity:
  "await_token rl = Some rl' \<Longrightarrow> capacity rl' = capacity rl"
  by (auto simp: await_token_def Wait_def refill_tick_def send_token_def
      split: option.splits if_splits)

lemma await_token_Some:
  "0 < capacity rl \<Longrightarrow> \<exists>rl'. await_token rl = Some rl'"
  by (auto simp: await_token_def Wait_def refill_tick_def send_token_def
      split: option.splits if_splits)

lemma await_token_tokens:
  "await_token rl = Some rl' \<Longrightarrow> 0 < tokens rl \<Longrightarrow> tokens rl' + 1 = tokens rl"
  by (auto simp: await_token_def Wait_def split: option.splits if_splits)

lemma retry_loop_unfold:
  "retry_loop cfg env idx item pt attempt lastError retryCount ap =
     (if attempt \<le> MaxRetries cfg then
        if ctx_err_at env attempt then (Inr (failure idx item ErrContext retryCount), ap)
        else
          case await_token (rateLimiter ap) of
            None \<Rightarrow> (Inl Hangs, ap)
          | Some rl \<Rightarrow>
              if pt item = [] then (Inr (failure idx item ErrEmptyPrompt 0), acquired_token ap rl)
              else
                case call_result (exchange_at env attempt) of
                  Inr res \<Rightarrow>
                    (Inr \<lparr>Index = idx, Input = Some item, Output = fst res, Success = True,
                          Error = None, Retries = retryCount, ResultUsage = snd res\<rparr>,
                     called ap rl (pt item))
                | Inl err \<Rightarrow>
                    if attempt < MaxRetries cfg then
                      if ctx_done_in_wait env attempt
                      then (Inr (failure idx item ErrContext (retryCount + 1)),
                            slept ap rl (pt item) (calculateRetryDelay cfg attempt))
                      else retry_loop cfg env idx item pt (attempt + 1) (Some err)
                             (retryCount + 1)
                             (slept ap rl (pt item) (calculateRetryDelay cfg attempt))
                    else retry_loop cfg env idx item pt (attempt + 1) (Some err)
                           (retryCount + 1) (called ap rl (pt item))
      else
        case lastError of
          None \<Rightarrow> (Inl PanicNilDereference, ap)
        | Some e \<Rightarrow> (Inr (failure idx item e retryCount), ap))"
  by (subst retry_loop.simps)
     (simp add: Let_def callOpenAI_def acquired_token_def called_def slept_def
      split: option.splits sum.splits prod.splits)

lemma acquired_token_simps:
  "config (acquired_token ap rl) = config ap"
  "rateLimiter (acquired_token ap rl) = rl"
  "tokenTracker (acquired_token ap rl) = tokenTracker ap"
  "acquired (acquired_token ap rl) = acquired ap + 1"
  "calls (acquired_token ap rl) = calls ap"
  "sleeps (acquired_token ap rl) = sleeps ap"
  by (simp_all add: acquired_token_def)

lemma called_simps:
  "config (called ap rl p) = config ap"
  "rateLimiter (called ap rl p) = rl"
  "tokenTracker (called ap rl p) = tokenTracker ap"
  "acquired (called ap rl p) = acquired ap + 1"
  "calls (called ap rl p) = calls ap @ [build_request (config ap) p]"
  "sleeps (called ap rl p) = sleeps ap"
  by (simp_all add: called_def acquired_token_def)

lemma slept_simps:
  "config (slept ap rl p d) = config ap"
  "rateLimiter (slept ap rl p d) = rl"
  "tokenTracker (slept ap rl p d) = tokenTracker ap"
  "acquired (slept ap rl p d) = acquired ap + 1"
  "calls (slept ap rl p d) = calls ap @ [build_request (config ap) p]"
  "sleeps (slept ap rl p d) = sleeps ap @ [d]"
  by (simp_all add: slept_def called_def acquired_token_def)

lemmas world_simps = acquired_token_simps called_simps slept_simps

lemma retry_loop_tracker:
  "tokenTracker (snd (retry_loop cfg env idx item pt attempt lastError retryCount ap))
   = tokenTracker ap"
proof (induction "nat (MaxRetries cfg + 1 - attempt)" arbitrary: attempt lastError retryCount ap
    rule: less_induct)
  case less
  show ?case
    by (subst retry_loop_unfold)
       (auto simp: world_simps less split: option.splits sum.splits)
qed

lemma retry_loop_Index:
  "fst (retry_loop cfg env idx item pt attempt lastError retryCount ap) = Inr r \<Longrightarrow>
   Index r = idx \<and> Input r = Some item"
proof (induction "nat (MaxRetries cfg + 1 - attempt)" arbitrary: attempt lastError retryCount ap
    rule: less_induct)
  case less
  define a' where "a' = attempt + 1"
  have ih: "Index r = idx \<and> Input r = Some item"
    if "fst (retry_loop cfg env idx item pt a' le rc ap0) = Inr r"
      and "attempt \<le> MaxRetries cfg" for le rc ap0
    using that less.hyps [of a' le rc ap0] by (simp add: a'_def)
  from less.prems show ?case
    apply (subst (asm) retry_loop_unfold)
    unfolding a'_def [symmetric]
    apply (auto simp: failure_def dest: ih split: option.splits sum.splits if_splits)
    done
qed

lemma retry_loop_returns:
  "0 < capacity (rateLimiter ap) \<Longrightarrow> attempt \<le> MaxRetries cfg \<or> lastError \<noteq> None \<Longrightarrow>
   \<exists>r. fst (retry_loop cfg env idx item pt attempt lastError retryCount ap) = Inr r"
proof (induction "nat (MaxRetries cfg + 1 - attempt)" arbitrary: attempt lastError retryCount ap
    rule: less_induct)
  case less
  obtain rl where rl: "await_token (rateLimiter ap) = Some rl"
    using await_token_Some [OF less.prems(1)] by blast
  have cap: "0 < capacity rl" using await_token_capacity [OF rl] less.prems(1) by simp
  show ?case
    using less.prems rl cap
    by (subst retry_loop_unfold)
       (auto simp: world_simps intro!: less.hyps split: option.splits sum.splits)
qed

lemma retry_loop_Retries:
  "fst (retry_loop cfg env idx item pt attempt lastError retryCount ap) = Inr r \<Longrightarrow>
   attempt \<le> MaxRetries cfg + 1 \<Longrightarrow>
   Retries r = 0 \<or> (retryCount \<le> Retries r
                    \<and> Retries r \<le> retryCount + (MaxRetries cfg + 1 - attempt))"
proof (induction "nat (MaxRetries cfg + 1 - attempt)" arbitrary: attempt lastError retryCount ap
    rule: less_induct)
  case less
  define a' where "a' = attempt + 1"
  define rc' where "rc' = retryCount + 1"
  have ih: "Retries r = 0 \<or> (retryCount + 1 \<le> Retries r
                    \<and> Retries r \<le> retryCount + (MaxRetries cfg + 1 - attempt))"
    if "fst (retry_loop cfg env idx item pt a' le rc' ap0) = Inr r"
      and "attempt \<le> MaxRetries cfg" for le ap0
    using that less.hyps [of a' le rc' ap0] by (auto simp: a'_def rc'_def)
  have b1: "retryCount \<le> rc'" by (simp add: rc'_def)
  have b2: "rc' \<le> retryCount + (MaxRetries cfg + 1 - attempt)" if "attempt < MaxRetries cfg"
    using that by (simp add: rc'_def)
  from less.prems show ?case
    apply (subst (asm) retry_loop_unfold)
    unfolding a'_def [symmetric] rc'_def [symmetric]
    apply (auto simp: failure_def b1 b2 dest: ih split: option.splits sum.splits if_splits)
    done
qed

text \<open>Every attempt fails and the context is never cancelled.\<close>

lemma retry_loop_exhausted:
  assumes "\<forall>k. \<not> ctx_err_at env k \<and> \<not> ctx_done_in_wait env k \<and> call_result (exchange_at env k) = Inl e"
    and "pt item \<noteq> []"
  shows "0 < capacity (rateLimiter ap) \<Longrightarrow> attempt \<le> MaxRetries cfg \<Longrightarrow>
         fst (retry_loop cfg env idx item pt attempt lastError retryCount ap)
         = Inr (failure idx item e (retryCount + (MaxRetries cfg + 1 - attempt)))"
proof (induction "nat (MaxRetries cfg + 1 - attempt)" arbitrary: attempt lastError retryCount ap
    rule: less_induct)
  case less
  obtain rl where rl: "await_token (rateLimiter ap) = Some rl"
    using await_token_Some [OF less.prems(1)] by blast
  have cap: "0 < capacity rl" using await_token_capacity [OF rl] less.prems(1) by simp
  have last: "fst (retry_loop cfg env idx item pt (MaxRetries cfg + 1) (Some e) rc ap0)
              = Inr (failure idx item e rc)" for rc ap0
    by (subst retry_loop_unfold) simp
  show ?case
  proof (cases "attempt < MaxRetries cfg")
    case True
    have "fst (retry_loop cfg env idx item pt (attempt + 1) (Some e) (retryCount + 1)
                 (slept ap rl (pt item) (calculateRetryDelay cfg attempt)))
          = Inr (failure idx item e (retryCount + 1 + (MaxRetries cfg + 1 - (attempt + 1))))"
      using True cap by (intro less.hyps) (auto simp: world_simps)
    moreover have "retryCount + 1 + (MaxRetries cfg + 1 - (attempt + 1))
                   = retryCount + (MaxRetries cfg + 1 - attempt)" by simp
    ultimately show ?thesis
      using True rl assms by (subst retry_loop_unfold) (simp only: if_True if_False
          option.case sum.case order_less_imp_le simp_thms)
  next
    case False
    then have eq: "attempt = MaxRetries cfg" using less.prems(2) by simp
    show ?thesis
      using rl assms last by (subst retry_loop_unfold) (simp add: eq)
  qed
qed

section \<open>Outcomes of one item\<close>

lemma single_loop_unfold:
  "single_loop cfg xs prompt systemMessage weekLabel attempt st ap =
     (if attempt < MaxRetries cfg then
        let ap1 = (if 0 < attempt
                   then ap\<lparr>sleeps := sleeps ap @ [calculateRetryDelay cfg attempt]\<rparr>
                   else ap);
            fullPrompt =
              (if systemMessage \<noteq> []
               then ''System: '' @ systemMessage @ [CHR 0x0A, CHR 0x0A] @ ''User: '' @ prompt
               else prompt);
            ap2 = ap1\<lparr>calls := calls ap1 @ [build_request (config ap1) fullPrompt]\<rparr>
        in case call_result (xs attempt) of
             Inr res \<Rightarrow>
               ((fst res, None),
                ap2\<lparr>tokenTracker :=
                      RecordUsage (tokenTracker ap2) weekLabel (prompt_tokens (snd res))
                        (completion_tokens (snd res))\<rparr>)
           | Inl err \<Rightarrow>
               single_loop cfg xs prompt systemMessage weekLabel (attempt + 1) ([], Some err) ap2
      else (st, ap))"
  by (subst single_loop.simps)
     (simp add: Let_def callOpenAI_def split: option.splits sum.splits prod.splits)

lemma single_loop_records:
  assumes "attempt < MaxRetries cfg" and "call_result (xs attempt) = Inr (response, used)"
  shows "tokenTracker (snd (single_loop cfg xs prompt systemMessage weekLabel attempt st ap))
         = RecordUsage (tokenTracker ap) weekLabel (prompt_tokens used) (completion_tokens used)"
  using assms by (subst single_loop_unfold) (simp add: Let_def)

lemma processItemWithRetry_tracker:
  "tokenTracker (snd (processItemWithRetry ap env idx item pt)) = tokenTracker ap"
  by (simp add: processItemWithRetry_def retry_loop_tracker)

lemma processItemWithRetry_Retries:
  assumes "fst (processItemWithRetry ap env idx item pt) = Inr r"
    and "0 \<le> MaxRetries (config ap)"
  shows "0 \<le> Retries r \<and> Retries r \<le> MaxRetries (config ap) + 1"
  using retry_loop_Retries [of "config ap" env idx item pt 0 None 0 ap r] assms
  by (auto simp: processItemWithRetry_def)

text \<open>
  C2. The \<^verbatim>\<open>Retries\<close> field of an outcome is meant never to exceed the configured
  maximum. The lemma above bounds it by \<open>MaxRetries + 1\<close>, and that bound is reached:
  \<^verbatim>\<open>retryCount\<close> is incremented after every failed attempt, the last one included.
  With a maximum of 2 and a transport that fails on every attempt, the outcome is a
  failure that carries the last error and reports 3 retries.
\<close>

theorem retries_exceed_maximum:
  "MaxRetries (config (processor_with two_retries_config)) = 2
   \<and> fst (processItemWithRetry (processor_with two_retries_config) failing_env 0 ''kid''
           render_kid)
     = Inr \<lparr>Index = 0, Input = Some ''kid'', Output = [], Success = False,
            Error = Some (ErrRequestFailed ''timeout''), Retries = 3,
            ResultUsage = zero_Usage\<rparr>"
proof -
  have f: "\<forall>k. \<not> ctx_err_at failing_env k \<and> \<not> ctx_done_in_wait failing_env k
              \<and> call_result (exchange_at failing_env k) = Inl (ErrRequestFailed ''timeout'')"
    by (simp add: failing_env_def call_result_def timeout_exchange_def)
  have p: "render_kid ''kid'' \<noteq> []" by (simp add: render_kid_def)
  have c: "0 < capacity (rateLimiter (processor_with two_retries_config))"
    by (simp add: processor_with_def limiter60_def)
  have m: "MaxRetries two_retries_config = 2"
    by (simp add: two_retries_config_def)
  have "fst (retry_loop two_retries_config failing_env 0 ''kid'' render_kid 0 None 0
               (processor_with two_retries_config))
        = Inr (failure 0 ''kid'' (ErrRequestFailed ''timeout'')
                 (0 + (MaxRetries two_retries_config + 1 - 0)))"
    using f p c by (rule retry_loop_exhausted) (simp add: m)
  then show ?thesis
    by (simp add: processItemWithRetry_def processor_with_def m failure_def)
qed

text \<open>
  C3. A successful call is meant to be recorded in the usage tracker on both paths.
  \<^verbatim>\<open>ProcessSingleWithWeek\<close> does so; \<^verbatim>\<open>processItemWithRetry\<close> never touches the
  tracker (lemma \<open>processItemWithRetry_tracker\<close>). For one item whose first call
  succeeds with 10 prompt and 5 completion tokens, the outcome carries the usage and the
  tracker's total stays zero, while the single-item path records 10, 5 and 15.
\<close>

theorem batch_item_usage_not_recorded:
  "fst (processItemWithRetry (processor_with backoff_config) success_env 0 ''kid'' render_kid)
     = Inr \<lparr>Index = 0, Input = Some ''kid'', Output = ''{}'', Success = True, Error = None,
            Retries = 0,
            ResultUsage = \<lparr>prompt_tokens = 10, completion_tokens = 5, total_tokens = 15\<rparr>\<rparr>
   \<and> GetTotalSummary (tokenTracker
         (snd (processItemWithRetry (processor_with backoff_config) success_env 0 ''kid''
                 render_kid)))
     = zero_TokenUsage
   \<and> fst (ProcessSingleWithWeek (processor_with backoff_config) (\<lambda>k. answer 200)
            (render_kid ''kid'') [] ''w1'')
     = Inr (Inr ''{}'')
   \<and> GetTotalSummary (tokenTracker
         (snd (ProcessSingleWithWeek (processor_with backoff_config) (\<lambda>k. answer 200)
                 (render_kid ''kid'') [] ''w1'')))
     = \<lparr>PromptTokens = 10, CompletionTokens = 5, TotalTokens = 15\<rparr>"
proof -
  have cr: "call_result (answer 200)
            = Inr (''{}'', \<lparr>prompt_tokens = 10, completion_tokens = 5, total_tokens = 15\<rparr>)"
    by (simp add: call_result_def answer_def example_response_def)
  have aw: "await_token limiter60 = Some (limiter60\<lparr>tokens := 59\<rparr>)"
    by (simp add: await_token_def Wait_def limiter60_def)
  have p: "render_kid ''kid'' \<noteq> []" by (simp add: render_kid_def)
  have m: "MaxRetries backoff_config = 40" by (simp add: backoff_config_def)
  have 1: "fst (processItemWithRetry (processor_with backoff_config) success_env 0 ''kid''
              render_kid)
     = Inr \<lparr>Index = 0, Input = Some ''kid'', Output = ''{}'', Success = True, Error = None,
            Retries = 0,
            ResultUsage = \<lparr>prompt_tokens = 10, completion_tokens = 5, total_tokens = 15\<rparr>\<rparr>"
    unfolding processItemWithRetry_def
    by (subst retry_loop_unfold) (simp add: processor_with_def m aw p cr success_env_def)
  have 2: "GetTotalSummary (tokenTracker
         (snd (processItemWithRetry (processor_with backoff_config) success_env 0 ''kid''
                 render_kid))) = zero_TokenUsage"
    by (simp add: processItemWithRetry_tracker processor_with_def GetTotalSummary_def
        NewTokenTracker_def)
  have sl: "single_loop backoff_config (\<lambda>k. answer 200) (render_kid ''kid'') [] ''w1'' 0
              ([], None) ap
            = ((''{}'', None),
               ap\<lparr>calls := calls ap @ [build_request (config ap) (render_kid ''kid'')],
                   tokenTracker := RecordUsage (tokenTracker ap) ''w1'' 10 5\<rparr>)" for ap
    by (subst single_loop_unfold) (simp add: m cr Let_def)
  have 3: "fst (ProcessSingleWithWeek (processor_with backoff_config) (\<lambda>k. answer 200)
            (render_kid ''kid'') [] ''w1'') = Inr (Inr ''{}'')"
    by (simp add: ProcessSingleWithWeek_def processor_with_def aw sl Let_def)
  have 4: "GetTotalSummary (tokenTracker
         (snd (ProcessSingleWithWeek (processor_with backoff_config) (\<lambda>k. answer 200)
                 (render_kid ''kid'') [] ''w1'')))
     = \<lparr>PromptTokens = 10, CompletionTokens = 5, TotalTokens = 15\<rparr>"
    by (simp add: ProcessSingleWithWeek_def processor_with_def aw sl Let_def
        GetTotalSummary_def RecordUsage_def NewTokenTracker_def zero_TokenUsage_def)
  from 1 2 3 4 show ?thesis by blast
qed

text \<open>
  C9. If the render function returns the empty string for an item, the item's outcome
  is a failure with \<open>Success = False\<close> and \<open>Retries = 0\<close>, reached in the first pass
  of the loop, and no request is handed to the transport. (The configuration allows at
  least the first attempt and the rate limiter has a positive capacity.)
\<close>

theorem empty_prompt_outcome:
  assumes "promptTemplate item = []" and "0 \<le> MaxRetries (config ap)"
    and "0 < capacity (rateLimiter ap)"
  shows "\<exists>r ap'. processItemWithRetry ap env idx item promptTemplate = (Inr r, ap')
           \<and> Index r = idx \<and> Success r = False \<and> Retries r = 0
           \<and> Error r = Some (if ctx_err_at env 0 then ErrContext else ErrEmptyPrompt)
           \<and> Output r = [] \<and> calls ap' = calls ap"
proof -
  obtain rl where rl: "await_token (rateLimiter ap) = Some rl"
    using await_token_Some [OF assms(3)] by blast
  show ?thesis
    unfolding processItemWithRetry_def
    using assms(1,2) rl
    by (subst retry_loop_unfold) (simp add: failure_def world_simps)
qed

text \<open>
  C10. In the retry loop the token of the rate limiter is taken before the rendered
  prompt is looked at: an item whose render returns the empty string, and whose first
  attempt gets past the check of the context, returns the empty-prompt failure after
  exactly one completed \<^verbatim>\<open>Wait\<close>, one token gone from a pool that had one, and no
  request handed to the transport.
\<close>

theorem empty_prompt_takes_token:
  assumes "promptTemplate item = []" and "\<not> ctx_err_at env 0"
    and "0 \<le> MaxRetries (config ap)" and "0 < capacity (rateLimiter ap)"
  shows "\<exists>rl. await_token (rateLimiter ap) = Some rl
           \<and> processItemWithRetry ap env idx item promptTemplate
               = (Inr (failure idx item ErrEmptyPrompt 0),
                  ap\<lparr>rateLimiter := rl, acquired := acquired ap + 1\<rparr>)
           \<and> calls (snd (processItemWithRetry ap env idx item promptTemplate)) = calls ap
           \<and> acquired (snd (processItemWithRetry ap env idx item promptTemplate))
               = acquired ap + 1
           \<and> (0 < tokens (rateLimiter ap) \<longrightarrow> tokens rl + 1 = tokens (rateLimiter ap))"
proof -
  obtain rl where rl: "await_token (rateLimiter ap) = Some rl"
    using await_token_Some [OF assms(4)] by blast
  have "processItemWithRetry ap env idx item promptTemplate
               = (Inr (failure idx item ErrEmptyPrompt 0),
                  ap\<lparr>rateLimiter := rl, acquired := acquired ap + 1\<rparr>)"
    unfolding processItemWithRetry_def
    using assms(1,2,3) rl
    by (subst retry_loop_unfold) (simp add: acquired_token_def)
  then show ?thesis using rl await_token_tokens [OF rl] by simp
qed

theorem empty_prompt_outcome_witness:
  "render_nothing ''kid'' = [] \<and> 0 \<le> MaxRetries (config (processor_with backoff_config))
   \<and> 0 < capacity (rateLimiter (processor_with backoff_config))
   \<and> fst (processItemWithRetry (processor_with backoff_config) success_env 7 ''kid''
           render_nothing)
       = Inr \<lparr>Index = 7, Input = Some ''kid'', Output = [], Success = False,
              Error = Some ErrEmptyPrompt, Retries = 0, ResultUsage = zero_Usage\<rparr>
   \<and> calls (snd (processItemWithRetry (processor_with backoff_config) success_env 7 ''kid''
                  render_nothing)) = []"
proof -
  have h1: "render_nothing ''kid'' = []" by (simp add: render_nothing_def)
  have h2: "0 \<le> MaxRetries (config (processor_with backoff_config))"
    by (simp add: processor_with_def backoff_config_def)
  have h3: "0 < capacity (rateLimiter (processor_with backoff_config))"
    by (simp add: processor_with_def limiter60_def)
  from empty_prompt_outcome [where promptTemplate = render_nothing and item = "''kid''"
      and ap = "processor_with backoff_config" and env = success_env and idx = 7,
      OF h1 h2 h3]
  obtain r ap' where
    res: "processItemWithRetry (processor_with backoff_config) success_env 7 ''kid''
            render_nothing = (Inr r, ap')"
    and r: "Index r = 7" "Success r = False" "Retries r = 0"
      "Error r = Some (if ctx_err_at success_env 0 then ErrContext else ErrEmptyPrompt)"
      "Output r = []"
    and c: "calls ap' = calls (processor_with backoff_config)"
    by blast
  have inp: "Input r = Some ''kid''"
    using retry_loop_Index [of "config (processor_with backoff_config)" success_env 7 "''kid''"
        render_nothing 0 None 0 "processor_with backoff_config" r] res
    by (simp add: processItemWithRetry_def)
  have us: "ResultUsage r = zero_Usage"
    using res unfolding processItemWithRetry_def
    by (subst (asm) retry_loop_unfold)
       (auto simp: failure_def render_nothing_def success_env_def split: if_splits option.splits)
  have "r = \<lparr>Index = 7, Input = Some ''kid'', Output = [], Success = False,
              Error = Some ErrEmptyPrompt, Retries = 0, ResultUsage = zero_Usage\<rparr>"
    using r inp us by (cases r) (simp add: success_env_def)
  then show ?thesis using h1 h2 h3 res c by (simp add: processor_with_def)
qed

theorem empty_prompt_takes_token_witness:
  "render_nothing ''kid'' = [] \<and> \<not> ctx_err_at success_env 0
   \<and> 0 \<le> MaxRetries (config (processor_with backoff_config))
   \<and> 0 < capacity (rateLimiter (processor_with backoff_config))
   \<and> tokens (rateLimiter (processor_with backoff_config)) = 60
   \<and> tokens (rateLimiter (snd (processItemWithRetry (processor_with backoff_config)
        success_env 7 ''kid'' render_nothing))) = 59
   \<and> acquired (snd (processItemWithRetry (processor_with backoff_config)
        success_env 7 ''kid'' render_nothing)) = 1
   \<and> calls (snd (processItemWithRetry (processor_with backoff_config)
        success_env 7 ''kid'' render_nothing)) = []"
proof -
  have h1: "render_nothing ''kid'' = []" by (simp add: render_nothing_def)
  have h2: "\<not> ctx_err_at success_env 0" by (simp add: success_env_def)
  have h3: "0 \<le> MaxRetries (config (processor_with backoff_config))"
    by (simp add: processor_with_def backoff_config_def)
  have h4: "0 < capacity (rateLimiter (processor_with backoff_config))"
    by (simp add: processor_with_def limiter60_def)
  have t: "tokens (rateLimiter (processor_with backoff_config)) = 60"
    by (simp add: processor_with_def limiter60_def)
  note inst = empty_prompt_takes_token [where promptTemplate = render_nothing
      and item = "''kid''" and ap = "processor_with backoff_config" and env = success_env
      and idx = 7, OF h1 h2 h3 h4]
  then obtain rl where
    all: "await_token (rateLimiter (processor_with backoff_config)) = Some rl
        \<and> processItemWithRetry (processor_with backoff_config) success_env 7 ''kid''
            render_nothing
          = (Inr (failure 7 ''kid'' ErrEmptyPrompt 0),
             (processor_with backoff_config)
               \<lparr>rateLimiter := rl,
                acquired := acquired (processor_with backoff_config) + 1\<rparr>)
        \<and> calls (snd (processItemWithRetry (processor_with backoff_config) success_env 7
                     ''kid'' render_nothing)) = calls (processor_with backoff_config)
        \<and> acquired (snd (processItemWithRetry (processor_with backoff_config) success_env 7
                     ''kid'' render_nothing))
            = acquired (processor_with backoff_config) + 1
        \<and> (0 < tokens (rateLimiter (processor_with backoff_config)) \<longrightarrow>
             tokens rl + 1 = tokens (rateLimiter (processor_with backoff_config)))" ..
  have res: "processItemWithRetry (processor_with backoff_config) success_env 7 ''kid''
            render_nothing
          = (Inr (failure 7 ''kid'' ErrEmptyPrompt 0),
             (processor_with backoff_config)
               \<lparr>rateLimiter := rl,
                acquired := acquired (processor_with backoff_config) + 1\<rparr>)"
    using all by (elim conjE)
  have c: "calls (snd (processItemWithRetry (processor_with backoff_config) success_env 7
                     ''kid'' render_nothing)) = calls (processor_with backoff_config)"
    using all by (elim conjE)
  have a: "acquired (snd (processItemWithRetry (processor_with backoff_config) success_env 7
                     ''kid'' render_nothing))
            = acquired (processor_with backoff_config) + 1"
    using all by (elim conjE)
  have tk: "0 < tokens (rateLimiter (processor_with backoff_config)) \<longrightarrow>
             tokens rl + 1 = tokens (rateLimiter (processor_with backoff_config))"
    using all by (elim conjE)
  have "tokens rl = 59" using tk t by simp
  then show ?thesis using h1 h2 h3 h4 t res c a by (simp add: processor_with_def)
qed

section \<open>The batch: results and their order\<close>

lemma retry_loop_config:
  "config (snd (retry_loop cfg env idx item pt attempt lastError retryCount ap)) = config ap"
proof (induction "nat (MaxRetries cfg + 1 - attempt)" arbitrary: attempt lastError retryCount ap
    rule: less_induct)
  case less
  show ?case
    by (subst retry_loop_unfold)
       (auto simp: world_simps less split: option.splits sum.splits)
qed

lemma retry_loop_capacity:
  "capacity (rateLimiter (snd (retry_loop cfg env idx item pt attempt lastError retryCount ap)))
   = capacity (rateLimiter ap)"
proof (induction "nat (MaxRetries cfg + 1 - attempt)" arbitrary: attempt lastError retryCount ap
    rule: less_induct)
  case less
  show ?case
    by (subst retry_loop_unfold)
       (auto simp: world_simps less dest: await_token_capacity split: option.splits sum.splits)
qed

lemma processItemWithRetry_ready:
  "ready ap \<Longrightarrow> ready (snd (processItemWithRetry ap env idx item pt))"
  by (simp add: ready_def processItemWithRetry_def retry_loop_config retry_loop_capacity)

lemma processItemWithRetry_returns:
  "ready ap \<Longrightarrow> \<exists>r. fst (processItemWithRetry ap env idx item pt) = Inr r"
  unfolding processItemWithRetry_def ready_def
  by (intro retry_loop_returns) auto

lemma processItemWithRetry_Index:
  "fst (processItemWithRetry ap env idx item pt) = Inr r \<Longrightarrow> Index r = idx"
  using retry_loop_Index [of "config ap" env idx item pt 0 None 0 ap r]
  by (simp add: processItemWithRetry_def)

lemma item_goroutine_Inr:
  assumes "item_goroutine env i item pt (results, ap) = Inr (results', ap')"
  shows "\<exists>r. results' = results[i := r] \<and> Index r = int i"
    and "ready ap \<Longrightarrow> ready ap'"
    and "tokenTracker ap' = tokenTracker ap"
proof -
  show "\<exists>r. results' = results[i := r] \<and> Index r = int i"
  proof (cases "ctx_cancelled_before env (int i)")
    case True
    then show ?thesis using assms by (auto simp: item_goroutine_def)
  next
    case False
    obtain x ap1 where p: "processItemWithRetry ap (env_of_item env (int i)) (int i) item pt = (x, ap1)"
      by (cases "processItemWithRetry ap (env_of_item env (int i)) (int i) item pt")
    with assms False obtain r where "x = Inr r" "results' = results[i := r]"
      by (auto simp: item_goroutine_def split: sum.splits)
    moreover have "Index r = int i"
      using processItemWithRetry_Index [of ap "env_of_item env (int i)" "int i" item pt r] p
        \<open>x = Inr r\<close> by simp
    ultimately show ?thesis by blast
  qed
  show "ready ap'" if "ready ap"
    using assms that
      processItemWithRetry_ready [of ap "env_of_item env (int i)" "int i" item pt]
    by (auto simp: item_goroutine_def split: if_splits sum.splits prod.splits)
  show "tokenTracker ap' = tokenTracker ap"
    using assms processItemWithRetry_tracker [of ap "env_of_item env (int i)" "int i" item pt]
    by (auto simp: item_goroutine_def split: if_splits sum.splits prod.splits)
qed

lemma item_goroutine_returns:
  "ready ap \<Longrightarrow> \<exists>st'. item_goroutine env i item pt (results, ap) = Inr st'"
  using processItemWithRetry_returns [of ap "env_of_item env (int i)" "int i" item pt]
  by (auto simp: item_goroutine_def split: sum.splits prod.splits)

lemma run_batch_Nil: "run_batch env items pt [] step st = Inr (st, step)"
  by (subst run_batch.simps) simp

lemma run_batch_Cons:
  "pending \<noteq> [] \<Longrightarrow>
   run_batch env items pt pending step st =
     (case item_goroutine env (pending ! (finishes_next env step mod length pending))
             (items ! (pending ! (finishes_next env step mod length pending))) pt st of
        Inl a \<Rightarrow> Inl a
      | Inr st' \<Rightarrow>
          run_batch env items pt
            (remove1 (pending ! (finishes_next env step mod length pending)) pending)
            (step + 1) st')"
  by (subst run_batch.simps) (simp add: Let_def)

lemma run_batch_results:
  "run_batch env items pt pending step (results, ap) = Inr ((results', ap'), step') \<Longrightarrow>
   set pending \<subseteq> {..<length results} \<Longrightarrow>
   length results' = length results
   \<and> (\<forall>j\<in>set pending. Index (results' ! j) = int j)
   \<and> (\<forall>j. j \<notin> set pending \<longrightarrow> results' ! j = results ! j)
   \<and> (ready ap \<longrightarrow> ready ap') \<and> tokenTracker ap' = tokenTracker ap"
proof (induction "length pending" arbitrary: pending step results ap rule: less_induct)
  case less
  show ?case
  proof (cases "pending = []")
    case True
    then show ?thesis using less.prems(1) by (simp add: run_batch_Nil)
  next
    case False
    define i where "i = pending ! (finishes_next env step mod length pending)"
    have i_in: "i \<in> set pending" using False by (simp add: i_def)
    then have i_lt: "i < length results" using less.prems(2) by auto
    have shorter: "length (remove1 i pending) < length pending"
      using i_in False by (simp add: length_remove1)
    from less.prems(1) obtain st1 where
      g: "item_goroutine env i (items ! i) pt (results, ap) = Inr st1"
      and rest: "run_batch env items pt (remove1 i pending) (step + 1) st1
                 = Inr ((results', ap'), step')"
      by (auto simp: run_batch_Cons [OF False] i_def [symmetric] split: sum.splits)
    obtain results1 ap1 where st1: "st1 = (results1, ap1)" by (cases st1)
    from item_goroutine_Inr [OF g [unfolded st1]] obtain r where
      r: "results1 = results[i := r]" "Index r = int i"
      and rdy: "ready ap \<Longrightarrow> ready ap1"
      and trk: "tokenTracker ap1 = tokenTracker ap"
      by blast
    have sub: "set (remove1 i pending) \<subseteq> {..<length results1}"
      using less.prems(2) set_remove1_subset [of i pending] by (auto simp: r(1))
    from less.hyps [OF shorter rest [unfolded st1] sub]
    have len: "length results' = length results1"
      and idx: "\<forall>j\<in>set (remove1 i pending). Index (results' ! j) = int j"
      and oth: "\<forall>j. j \<notin> set (remove1 i pending) \<longrightarrow> results' ! j = results1 ! j"
      and rdy': "ready ap1 \<longrightarrow> ready ap'"
      and trk': "tokenTracker ap' = tokenTracker ap1"
      by blast+
    have 1: "length results' = length results" using len r(1) by simp
    have 2: "Index (results' ! j) = int j" if "j \<in> set pending" for j
    proof (cases "j \<in> set (remove1 i pending)")
      case True
      then show ?thesis using idx by blast
    next
      case False
      then have "j = i" using that by (metis in_set_remove1)
      moreover have "results' ! i = results1 ! i" using oth False \<open>j = i\<close> by blast
      ultimately show ?thesis using r i_lt by simp
    qed
    have 3: "results' ! j = results ! j" if "j \<notin> set pending" for j
    proof -
      have "j \<notin> set (remove1 i pending)" using that set_remove1_subset [of i pending] by auto
      then have "results' ! j = results1 ! j" using oth by blast
      moreover have "j \<noteq> i" using that i_in by auto
      ultimately show ?thesis using r(1) by simp
    qed
    from 1 2 3 rdy rdy' trk trk' show ?thesis by auto
  qed
qed

lemma run_batch_returns:
  "ready ap \<Longrightarrow> \<exists>x. run_batch env items pt pending step (results, ap) = Inr x"
proof (induction "length pending" arbitrary: pending step results ap rule: less_induct)
  case less
  show ?case
  proof (cases "pending = []")
    case True
    then show ?thesis by (simp add: run_batch_Nil)
  next
    case False
    define i where "i = pending ! (finishes_next env step mod length pending)"
    have i_in: "i \<in> set pending" using False by (simp add: i_def)
    have shorter: "length (remove1 i pending) < length pending"
      using i_in False by (simp add: length_remove1)
    obtain st1 where g: "item_goroutine env i (items ! i) pt (results, ap) = Inr st1"
      using item_goroutine_returns [OF less.prems, of env i "items ! i" pt results] by blast
    obtain results1 ap1 where st1: "st1 = (results1, ap1)" by (cases st1)
    have "ready ap1" using item_goroutine_Inr(2) [OF g [unfolded st1]] less.prems by blast
    from less.hyps [OF shorter this]
    obtain x where "run_batch env items pt (remove1 i pending) (step + 1) (results1, ap1) = Inr x"
      by blast
    then show ?thesis
      using g st1 by (simp add: run_batch_Cons [OF False] i_def [symmetric])
  qed
qed

lemma run_batch_ready:
  "run_batch env items pt pending step (results, ap) = Inr ((results', ap'), step') \<Longrightarrow>
   ready ap \<Longrightarrow> ready ap'"
proof (induction "length pending" arbitrary: pending step results ap rule: less_induct)
  case less
  show ?case
  proof (cases "pending = []")
    case True
    then show ?thesis using less.prems by (simp add: run_batch_Nil)
  next
    case False
    define i where "i = pending ! (finishes_next env step mod length pending)"
    have i_in: "i \<in> set pending" using False by (simp add: i_def)
    have shorter: "length (remove1 i pending) < length pending"
      using i_in False by (simp add: length_remove1)
    from less.prems(1) obtain st1 where
      g: "item_goroutine env i (items ! i) pt (results, ap) = Inr st1"
      and rest: "run_batch env items pt (remove1 i pending) (step + 1) st1
                 = Inr ((results', ap'), step')"
      by (auto simp: run_batch_Cons [OF False] i_def [symmetric] split: sum.splits)
    obtain results1 ap1 where st1: "st1 = (results1, ap1)" by (cases st1)
    have "ready ap1" using item_goroutine_Inr(2) [OF g [unfolded st1]] less.prems(2) by blast
    from less.hyps [OF shorter rest [unfolded st1] this] show ?thesis .
  qed
qed

lemma batch_loop_done:
  "\<not> (batchStart < length items \<and> 0 < BatchSize cfg) \<Longrightarrow>
   batch_loop cfg env items pt batchStart step st = Inr st"
  by (subst batch_loop.simps) auto

lemma batch_loop_step:
  assumes "batchStart < length items" and "0 < BatchSize cfg"
    and "b = nat (BatchSize cfg)"
    and "batchEnd = (if batchStart + b > length items then length items else batchStart + b)"
  shows "batch_loop cfg env items pt batchStart step st =
     (case run_batch env items pt [batchStart..<batchEnd] step st of
        Inl a \<Rightarrow> Inl a
      | Inr x \<Rightarrow> batch_loop cfg env items pt (batchStart + b) (snd x) (fst x))"
  using assms
  by (subst batch_loop.simps) (simp add: Let_def split: sum.splits prod.splits)

lemma batch_loop_results:
  "batch_loop cfg env items pt batchStart step (results, ap) = Inr (results', ap') \<Longrightarrow>
   length results = length items \<Longrightarrow> 0 < BatchSize cfg \<Longrightarrow>
   length results' = length items
   \<and> (\<forall>j. batchStart \<le> j \<and> j < length items \<longrightarrow> Index (results' ! j) = int j)
   \<and> (\<forall>j<batchStart. results' ! j = results ! j)
   \<and> (ready ap \<longrightarrow> ready ap') \<and> tokenTracker ap' = tokenTracker ap"
proof (induction "length items - batchStart" arbitrary: batchStart step results ap
    rule: less_induct)
  case less
  show ?case
  proof (cases "batchStart < length items")
    case False
    then show ?thesis using less.prems by (simp add: batch_loop_done)
  next
    case True
    define b where "b = nat (BatchSize cfg)"
    define batchEnd where
      "batchEnd = (if batchStart + b > length items then length items else batchStart + b)"
    have b: "0 < b" using less.prems(3) by (simp add: b_def)
    have be: "batchStart < batchEnd" "batchEnd \<le> length items" "batchEnd \<le> batchStart + b"
      using True b by (auto simp: batchEnd_def)
    from less.prems(1) obtain results1 ap1 step1 where
      rb: "run_batch env items pt [batchStart..<batchEnd] step (results, ap)
           = Inr ((results1, ap1), step1)"
      and rest: "batch_loop cfg env items pt (batchStart + b) step1 (results1, ap1)
                 = Inr (results', ap')"
      by (auto simp: batch_loop_step [OF True less.prems(3) b_def batchEnd_def]
          split: sum.splits)
    have sub: "set [batchStart..<batchEnd] \<subseteq> {..<length results}"
      using be less.prems(2) by auto
    from run_batch_results [OF rb sub]
    have len1: "length results1 = length results"
      and idx1: "\<forall>j\<in>set [batchStart..<batchEnd]. Index (results1 ! j) = int j"
      and oth1: "\<forall>j. j \<notin> set [batchStart..<batchEnd] \<longrightarrow> results1 ! j = results ! j"
      and rdy1: "ready ap \<longrightarrow> ready ap1"
      and trk1: "tokenTracker ap1 = tokenTracker ap"
      by blast+
    have smaller: "length items - (batchStart + b) < length items - batchStart"
      using True b by simp
    have len1': "length results1 = length items" using len1 less.prems(2) by simp
    from less.hyps [OF smaller rest len1' less.prems(3)]
    have len: "length results' = length items"
      and idx: "\<forall>j. batchStart + b \<le> j \<and> j < length items \<longrightarrow> Index (results' ! j) = int j"
      and oth: "\<forall>j<batchStart + b. results' ! j = results1 ! j"
      and rdy: "ready ap1 \<longrightarrow> ready ap'"
      and trk: "tokenTracker ap' = tokenTracker ap1"
      by blast+
    have 2: "Index (results' ! j) = int j" if "batchStart \<le> j" "j < length items" for j
    proof (cases "j < batchStart + b")
      case False
      then show ?thesis using idx that by simp
    next
      case True
      then have "j < batchEnd" using that by (simp add: batchEnd_def)
      then have "Index (results1 ! j) = int j" using idx1 that by simp
      then show ?thesis using oth True by simp
    qed
    have 3: "results' ! j = results ! j" if "j < batchStart" for j
      using oth oth1 that by simp
    from len 2 3 rdy1 rdy trk1 trk show ?thesis by auto
  qed
qed

lemma batch_loop_returns:
  "ready ap \<Longrightarrow> \<exists>x. batch_loop cfg env items pt batchStart step (results, ap) = Inr x"
proof (induction "length items - batchStart" arbitrary: batchStart step results ap
    rule: less_induct)
  case less
  show ?case
  proof (cases "batchStart < length items \<and> 0 < BatchSize cfg")
    case False
    then show ?thesis by (simp add: batch_loop_done)
  next
    case True
    define b where "b = nat (BatchSize cfg)"
    define batchEnd where
      "batchEnd = (if batchStart + b > length items then length items else batchStart + b)"
    obtain x where rb: "run_batch env items pt [batchStart..<batchEnd] step (results, ap) = Inr x"
      using run_batch_returns [OF less.prems, of env items pt "[batchStart..<batchEnd]" step
          results] by blast
    obtain results1 ap1 step1 where x: "x = ((results1, ap1), step1)"
      by (cases x) auto
    have "ready ap1" using run_batch_ready [OF rb [unfolded x] less.prems] .
    have "0 < b" using True by (simp add: b_def)
    then have smaller: "length items - (batchStart + b) < length items - batchStart"
      using True by arith
    from less.hyps [OF smaller \<open>ready ap1\<close>, of step1 results1]
    obtain y where "batch_loop cfg env items pt (batchStart + b) step1 (results1, ap1) = Inr y"
      by blast
    then show ?thesis
      using rb x batch_loop_step [of batchStart items cfg b batchEnd env pt step "(results, ap)"]
        True b_def batchEnd_def
      by simp
  qed
qed

lemma ProcessBatch_empty:
  "ProcessBatch ap env [] pt
   = Inl (if MaxConcurrent (config ap) < 0 then PanicMakeChan else PanicDivideByZero)"
  by (simp add: ProcessBatch_def Let_def batch_loop_done)

lemma ProcessBatch_nonempty:
  assumes "items \<noteq> []" and "0 < BatchSize (config ap)" and "0 < MaxConcurrent (config ap)"
    and "ready ap"
  shows "\<exists>results ap'. ProcessBatch ap env items pt = Inr (results, ap')
           \<and> length results = length items
           \<and> (\<forall>i<length items. Index (results ! i) = int i)
           \<and> tokenTracker ap' = tokenTracker ap"
proof -
  define results0 :: "'a ProcessResult list" where
    "results0 = replicate (length items) zero_ProcessResult"
  obtain x where x: "batch_loop (config ap) env items pt 0 0 (results0, ap) = Inr x"
    using batch_loop_returns [OF assms(4), of "config ap" env items pt 0 0 results0] by blast
  obtain results ap' where xr: "x = (results, ap')" by (cases x)
  have len0: "length results0 = length items" by (simp add: results0_def)
  from batch_loop_results [OF x [unfolded xr] len0 assms(2)]
  have "length results = length items"
    and "\<forall>i<length items. Index (results ! i) = int i"
    and "tokenTracker ap' = tokenTracker ap"
    by simp_all
  moreover have "ProcessBatch ap env items pt = Inr (results, ap')"
    using assms(1,2,3) x xr by (simp add: ProcessBatch_def Let_def results0_def)
  ultimately show ?thesis by blast
qed

text \<open>
  C1. \<^verbatim>\<open>ProcessBatch\<close> is meant to return, for every input list of length \<open>N\<close>, a
  result array of length \<open>N\<close> with \<open>result[i].Index = i\<close>, whatever the order in which
  the goroutines run. Lemma \<open>ProcessBatch_nonempty\<close> proves this for every non-empty
  list and every choice of \<open>finishes_next\<close>. For the empty list the call does not
  return: the summary divides the duration by \<^verbatim>\<open>len(items)\<close> and panics.
\<close>

theorem ProcessBatch_empty_panics:
  "ProcessBatch (processor_with backoff_config) calm_env ([] :: string list) render_kid
   = Inl PanicDivideByZero"
  by (simp add: ProcessBatch_empty processor_with_def backoff_config_def)

lemma ProcessBatch_three_items:
  "\<exists>results ap'. ProcessBatch (processor_with backoff_config) calm_env [''a'', ''b'', ''c'']
        render_kid = Inr (results, ap')
     \<and> length results = 3 \<and> (\<forall>i<3. Index (results ! i) = int i)"
proof -
  have r: "ready (processor_with backoff_config)"
    by (simp add: ready_def processor_with_def backoff_config_def limiter60_def)
  have b: "0 < BatchSize (config (processor_with backoff_config))"
    "0 < MaxConcurrent (config (processor_with backoff_config))"
    by (simp_all add: processor_with_def backoff_config_def)
  from ProcessBatch_nonempty [of "[''a'', ''b'', ''c'']" "processor_with backoff_config"
      calm_env render_kid, OF _ b r]
  show ?thesis by auto
qed

section \<open>The barrier between batches\<close>

lemma unfinished_update:
  "unfinished (g(j := x))
   = (if x \<noteq> NotStarted \<and> x \<noteq> Finished then insert j (unfinished g)
      else unfinished g - {j})"
  by (auto simp: unfinished_def)

lemma started_below_update:
  assumes "x \<noteq> NotStarted" and "g j \<noteq> NotStarted"
  shows "started_below (g(j := x)) k = started_below g k"
proof -
  have "((g(j := x)) i \<noteq> NotStarted) = (g i \<noteq> NotStarted)" for i
    using assms by (cases "i = j") simp_all
  then show ?thesis by (simp only: started_below_def)
qed

lemma started_below_spawn:
  assumes "started_below g i"
  shows "started_below (g(i := Spawned)) (Suc i)"
  unfolding started_below_def
proof
  fix j
  have "(g j \<noteq> NotStarted) = (j < i)" using assms by (simp add: started_below_def)
  then show "((g(i := Spawned)) j \<noteq> NotStarted) = (j < Suc i)"
    by (cases "j = i") (simp_all add: less_Suc_eq)
qed

lemma main_inv_update:
  "x \<noteq> NotStarted \<Longrightarrow> g j \<noteq> NotStarted \<Longrightarrow>
   main_inv B n pc bs (g(j := x)) = main_inv B n pc bs g"
  by (cases pc) (simp_all add: started_below_update del: fun_upd_apply)

lemma sched_inv_init: "sched_inv B n (init_sched n)"
  by (simp add: sched_inv_def init_sched_def unfinished_def started_below_def)

text \<open>A goroutine that is under way moves on; the main loop stands still.\<close>

lemma sched_inv_goroutine:
  assumes inv: "sched_inv B n s"
    and old: "goroutines s j \<noteq> NotStarted" "goroutines s j \<noteq> Finished"
    and new: "x \<noteq> NotStarted" "x \<noteq> Finished"
    and asg: "assigned s \<subseteq> A" "x = Written \<or> x = Released \<Longrightarrow> j \<in> A"
  shows "sched_inv B n
           (s\<lparr>goroutines := (goroutines s)(j := x), semaphore := c, assigned := A\<rparr>)"
proof -
  have u: "unfinished ((goroutines s)(j := x)) = unfinished (goroutines s)"
    using old new by (auto simp: unfinished_def)
  have sb: "started_below ((goroutines s)(j := x)) k = started_below (goroutines s) k" for k
    using new(1) old(1) by (rule started_below_update)
  have p1: "finite (unfinished (goroutines s))" "wg s = card (unfinished (goroutines s))"
    and p2: "\<forall>i. goroutines s i \<in> {Written, Released, Finished} \<longrightarrow> i \<in> assigned s"
    and p3: "\<forall>i. i < batch_start s \<and> i < n \<longrightarrow> goroutines s i = Finished"
    and p4: "B dvd batch_start s"
    and p5: "main_inv B n (main_at s) (batch_start s) (goroutines s)"
    using inv by (simp_all add: sched_inv_def)
  have q2: "\<forall>i. ((goroutines s)(j := x)) i \<in> {Written, Released, Finished} \<longrightarrow> i \<in> A"
    using p2 asg new(2) by auto
  have q3: "\<forall>i. i < batch_start s \<and> i < n \<longrightarrow> ((goroutines s)(j := x)) i = Finished"
    using p3 old(2) by auto
  have q5: "main_inv B n (main_at s) (batch_start s) ((goroutines s)(j := x))"
    using p5 new(1) old(1) by (simp add: main_inv_update del: fun_upd_apply)
  show ?thesis
    unfolding sched_inv_def
    using p1 q2 q3 p4 q5 by (simp add: u del: fun_upd_apply)
qed

lemma sched_inv_step:
  assumes "sched_step B C n s s'" and "sched_inv B n s" and "0 < B"
  shows "sched_inv B n s'"
  using assms(1)
proof cases
  case (spawn i)
  have p1: "finite (unfinished (goroutines s))" "wg s = card (unfinished (goroutines s))"
    and p2: "\<forall>i. goroutines s i \<in> {Written, Released, Finished} \<longrightarrow> i \<in> assigned s"
    and p3: "\<forall>i. i < batch_start s \<and> i < n \<longrightarrow> goroutines s i = Finished"
    and p4: "B dvd batch_start s"
    and p5: "batch_start s \<le> i" "batch_start s < n" "started_below (goroutines s) i"
    using assms(2) spawn(2) by (simp_all add: sched_inv_def)
  have ns: "goroutines s i = NotStarted" using p5(3) by (auto simp: started_below_def)
  then have new: "i \<notin> unfinished (goroutines s)" by (simp add: unfinished_def)
  have u: "unfinished ((goroutines s)(i := Spawned)) = insert i (unfinished (goroutines s))"
    by (simp add: unfinished_update)
  have q1: "finite (unfinished ((goroutines s)(i := Spawned)))"
    "wg s + 1 = card (unfinished ((goroutines s)(i := Spawned)))"
    using p1 new by (simp_all add: u)
  have q2: "\<forall>j. ((goroutines s)(i := Spawned)) j \<in> {Written, Released, Finished}
              \<longrightarrow> j \<in> assigned s"
    using p2 by auto
  have q3: "\<forall>j. j < batch_start s \<and> j < n \<longrightarrow> ((goroutines s)(i := Spawned)) j = Finished"
    using p3 p5(1) by auto
  have q5: "i + 1 \<le> batch_end B n (batch_start s)" "batch_start s \<le> i + 1"
    "started_below ((goroutines s)(i := Spawned)) (i + 1)"
    using spawn(3) p5(1) started_below_spawn [OF p5(3)] by simp_all
  show ?thesis
    unfolding sched_inv_def spawn(1)
    using q1 q2 q3 p4 q5 p5(2) by (simp del: fun_upd_apply)
next
  case (spawned_all i)
  have "i = batch_end B n (batch_start s)"
    using assms(2) spawned_all(2,3) by (simp add: sched_inv_def)
  then show ?thesis
    using assms(2) spawned_all(2) unfolding spawned_all(1) by (simp add: sched_inv_def)
next
  case (acquire j)
  have "sched_inv B n
          (s\<lparr>goroutines := (goroutines s)(j := Running), semaphore := semaphore s + 1,
             assigned := assigned s\<rparr>)"
    using assms(2) acquire(2) by (intro sched_inv_goroutine) simp_all
  then show ?thesis unfolding acquire(1) by simp
next
  case (write_result j)
  have "sched_inv B n
          (s\<lparr>goroutines := (goroutines s)(j := Written), semaphore := semaphore s,
             assigned := insert j (assigned s)\<rparr>)"
    using assms(2) write_result(2) by (intro sched_inv_goroutine) auto
  then show ?thesis unfolding write_result(1) by simp
next
  case (release j)
  have "j \<in> assigned s"
    using assms(2) release(2) by (simp add: sched_inv_def)
  then have "sched_inv B n
          (s\<lparr>goroutines := (goroutines s)(j := Released), semaphore := semaphore s - 1,
             assigned := assigned s\<rparr>)"
    using assms(2) release(2) by (intro sched_inv_goroutine) simp_all
  then show ?thesis unfolding release(1) by simp
next
  case (wg_done j)
  have p1: "finite (unfinished (goroutines s))" "wg s = card (unfinished (goroutines s))"
    and p2: "\<forall>i. goroutines s i \<in> {Written, Released, Finished} \<longrightarrow> i \<in> assigned s"
    and p3: "\<forall>i. i < batch_start s \<and> i < n \<longrightarrow> goroutines s i = Finished"
    and p4: "B dvd batch_start s"
    and p5: "main_inv B n (main_at s) (batch_start s) (goroutines s)"
    using assms(2) by (simp_all add: sched_inv_def)
  have mem: "j \<in> unfinished (goroutines s)"
    using wg_done(2) by (simp add: unfinished_def)
  have u: "unfinished ((goroutines s)(j := Finished)) = unfinished (goroutines s) - {j}"
    by (simp add: unfinished_update)
  have q1: "finite (unfinished ((goroutines s)(j := Finished)))"
    "wg s - 1 = card (unfinished ((goroutines s)(j := Finished)))"
    using p1 mem by (simp_all add: u)
  have q5: "main_inv B n (main_at s) (batch_start s) ((goroutines s)(j := Finished))"
    using p5 wg_done(2) by (simp add: main_inv_update del: fun_upd_apply)
  have q2: "\<forall>i. ((goroutines s)(j := Finished)) i \<in> {Written, Released, Finished}
              \<longrightarrow> i \<in> assigned s"
    using p2 wg_done(2) by auto
  have q3: "\<forall>i. i < batch_start s \<and> i < n \<longrightarrow> ((goroutines s)(j := Finished)) i = Finished"
    using p3 by auto
  show ?thesis
    unfolding sched_inv_def wg_done(1)
    using q1 q2 q3 p4 q5 by (simp del: fun_upd_apply)
next
  case next_batch
  have p1: "finite (unfinished (goroutines s))" "wg s = card (unfinished (goroutines s))"
    and p2: "\<forall>i. goroutines s i \<in> {Written, Released, Finished} \<longrightarrow> i \<in> assigned s"
    and p4: "B dvd batch_start s"
    and p5: "started_below (goroutines s) (batch_end B n (batch_start s))"
    using assms(2) next_batch(2) by (simp_all add: sched_inv_def)
  have none: "unfinished (goroutines s) = {}" using p1 next_batch(3) by simp
  have be: "batch_end B n (batch_start s) = batch_start s + B"
    using next_batch(4) by (simp add: batch_end_def)
  have fin: "goroutines s j = Finished" if "j < batch_start s + B" for j
  proof -
    have "goroutines s j \<noteq> NotStarted" using p5 that be by (simp add: started_below_def)
    moreover have "j \<notin> unfinished (goroutines s)" using none by simp
    ultimately show ?thesis by (simp add: unfinished_def)
  qed
  have q5: "batch_start s + B \<le> batch_end B n (batch_start s + B)"
    using next_batch(4) by (simp add: batch_end_def)
  show ?thesis
    unfolding sched_inv_def next_batch(1)
    using p1 p2 p4 p5 fin q5 next_batch(4) by (simp add: be)
next
  case loop_exit
  have p1: "finite (unfinished (goroutines s))" "wg s = card (unfinished (goroutines s))"
    and p2: "\<forall>i. goroutines s i \<in> {Written, Released, Finished} \<longrightarrow> i \<in> assigned s"
    and p4: "B dvd batch_start s"
    and p5: "started_below (goroutines s) (batch_end B n (batch_start s))"
    using assms(2) loop_exit(2) by (simp_all add: sched_inv_def)
  have be: "batch_end B n (batch_start s) = n"
    using loop_exit(4) by (auto simp: batch_end_def)
  have none: "unfinished (goroutines s) = {}" using p1 loop_exit(3) by simp
  have fin: "goroutines s j = Finished" if "j < n" for j
  proof -
    have "goroutines s j \<noteq> NotStarted" using p5 that be by (simp add: started_below_def)
    moreover have "j \<notin> unfinished (goroutines s)" using none by simp
    ultimately show ?thesis by (simp add: unfinished_def)
  qed
  have ge: "n \<le> batch_start s + B" using loop_exit(4) by simp
  show ?thesis
    unfolding sched_inv_def loop_exit(1)
    using p1 p2 p4 p5 fin ge by (simp add: be)
qed

lemma reachable_inv: "reachable B C n s \<Longrightarrow> 0 < B \<Longrightarrow> sched_inv B n s"
  by (induction rule: reachable.induct) (auto intro: sched_inv_init sched_inv_step)

lemma reachable_second_batch_state: "reachable 1 1 2 second_batch_state"
proof -
  let ?g = "\<lambda>j::nat. NotStarted"
  let ?S0 = "\<lparr>batch_start = 0, main_at = Spawning 0, goroutines = ?g,
              wg = 0, semaphore = 0, assigned = {}\<rparr>"
  let ?S1 = "\<lparr>batch_start = 0, main_at = Spawning 1, goroutines = ?g(0 := Spawned),
              wg = 1, semaphore = 0, assigned = {}\<rparr>"
  let ?S2 = "\<lparr>batch_start = 0, main_at = Waiting, goroutines = ?g(0 := Spawned),
              wg = 1, semaphore = 0, assigned = {}\<rparr>"
  let ?S3 = "\<lparr>batch_start = 0, main_at = Waiting, goroutines = ?g(0 := Running),
              wg = 1, semaphore = 1, assigned = {}\<rparr>"
  let ?S4 = "\<lparr>batch_start = 0, main_at = Waiting, goroutines = ?g(0 := Written),
              wg = 1, semaphore = 1, assigned = {0}\<rparr>"
  let ?S5 = "\<lparr>batch_start = 0, main_at = Waiting, goroutines = ?g(0 := Released),
              wg = 1, semaphore = 0, assigned = {0}\<rparr>"
  let ?S6 = "\<lparr>batch_start = 0, main_at = Waiting, goroutines = ?g(0 := Finished),
              wg = 0, semaphore = 0, assigned = {0}\<rparr>"
  let ?S7 = "\<lparr>batch_start = 1, main_at = Spawning 1, goroutines = ?g(0 := Finished),
              wg = 0, semaphore = 0, assigned = {0}\<rparr>"
  have r0: "reachable 1 1 2 ?S0"
    using reachable.start [of 1 1 2] by (simp add: init_sched_def)
  have "sched_step 1 1 2 ?S0 ?S1"
    using sched_step.spawn [of ?S0 0 1 2 1] by (simp add: batch_end_def)
  with r0 have r1: "reachable 1 1 2 ?S1" by (rule reachable.after)
  have "sched_step 1 1 2 ?S1 ?S2"
    using sched_step.spawned_all [of ?S1 1 1 2 1] by (simp add: batch_end_def)
  with r1 have r2: "reachable 1 1 2 ?S2" by (rule reachable.after)
  have "sched_step 1 1 2 ?S2 ?S3"
    using sched_step.acquire [of ?S2 0 1 1 2] by simp
  with r2 have r3: "reachable 1 1 2 ?S3" by (rule reachable.after)
  have "sched_step 1 1 2 ?S3 ?S4"
    using sched_step.write_result [of ?S3 0 1 1 2] by simp
  with r3 have r4: "reachable 1 1 2 ?S4" by (rule reachable.after)
  have "sched_step 1 1 2 ?S4 ?S5"
    using sched_step.release [of ?S4 0 1 1 2] by simp
  with r4 have r5: "reachable 1 1 2 ?S5" by (rule reachable.after)
  have "sched_step 1 1 2 ?S5 ?S6"
    using sched_step.wg_done [of ?S5 0 1 1 2] by simp
  with r5 have r6: "reachable 1 1 2 ?S6" by (rule reachable.after)
  have "sched_step 1 1 2 ?S6 ?S7"
    using sched_step.next_batch [of ?S6 1 2 1] by simp
  with r6 have r7: "reachable 1 1 2 ?S7" by (rule reachable.after)
  have "sched_step 1 1 2 ?S7 second_batch_state"
    using sched_step.spawn [of ?S7 1 1 2 1]
    by (simp add: batch_end_def second_batch_state_def numeral_2_eq_2)
  with r7 show ?thesis by (rule reachable.after)
qed

text \<open>
  C6. \<^verbatim>\<open>ProcessBatch\<close> works through consecutive batches of the configured size \<open>B\<close>
  (\<^verbatim>\<open>batchStart\<close> is a multiple of \<open>B\<close>; while the main loop waits, the goroutines
  started are exactly those of the items below the end of the current batch), and in
  every state of every run, if the goroutine of an item exists at all, then every item
  of every earlier batch has been assigned its outcome and its goroutine has finished:
  nothing of batch \<open>k + 1\<close> starts before batch \<open>k\<close> is complete.
\<close>

theorem batch_barrier:
  assumes "reachable B C n s" and "0 < B"
  shows "B dvd batch_start s
     \<and> (\<forall>j. goroutines s j \<noteq> NotStarted \<longrightarrow> j < n \<and> j div B \<le> batch_start s div B)
     \<and> (\<forall>j j'. goroutines s j \<noteq> NotStarted \<and> j' div B < j div B \<longrightarrow>
            goroutines s j' = Finished \<and> j' \<in> assigned s)
     \<and> (main_at s = Waiting \<longrightarrow>
          (\<forall>j. goroutines s j \<noteq> NotStarted \<longleftrightarrow> j < batch_end B n (batch_start s)))"
proof -
  have inv: "sched_inv B n s" using assms by (rule reachable_inv)
  then have dvd: "B dvd batch_start s"
    and asg: "\<forall>j. goroutines s j \<in> {Written, Released, Finished} \<longrightarrow> j \<in> assigned s"
    and fin: "\<forall>j. j < batch_start s \<and> j < n \<longrightarrow> goroutines s j = Finished"
    and main: "main_inv B n (main_at s) (batch_start s) (goroutines s)"
    by (simp_all add: sched_inv_def)
  obtain k where k: "batch_start s = B * k" using dvd by (auto simp: dvd_def)
  have bound: "j < n \<and> j < batch_start s + B" if "goroutines s j \<noteq> NotStarted" for j
  proof (cases "main_at s")
    case (Spawning i)
    then have "j < i" "i \<le> batch_end B n (batch_start s)"
      using main that by (simp_all add: started_below_def)
    then show ?thesis by (auto simp: batch_end_def split: if_splits)
  next
    case Waiting
    then have "j < batch_end B n (batch_start s)"
      using main that by (simp add: started_below_def)
    then show ?thesis by (auto simp: batch_end_def split: if_splits)
  next
    case Returned
    then have "j < n" "n \<le> batch_start s"
      using main that by (simp_all add: started_below_def)
    then show ?thesis by simp
  qed
  have batch: "j div B \<le> batch_start s div B" if "goroutines s j \<noteq> NotStarted" for j
  proof -
    have "j < B * (k + 1)" using bound [OF that] k by simp
    then have "j div B < k + 1" using assms(2) by (simp add: less_mult_imp_div_less mult.commute)
    then show ?thesis using k assms(2) by simp
  qed
  have earlier: "goroutines s j' = Finished \<and> j' \<in> assigned s"
    if "goroutines s j \<noteq> NotStarted" "j' div B < j div B" for j j'
  proof -
    have "j' div B < k" using batch [OF that(1)] that(2) k assms(2) by simp
    then have "j' < B * k" using assms(2)
      by (metis div_le_mono div_mult_self1_is_m leD leI)
    then have 1: "j' < batch_start s" using k by simp
    have "j' \<le> j" using that(2) by (metis div_le_mono leD leI less_imp_le)
    then have 2: "j' < n" using bound [OF that(1)] by simp
    have "goroutines s j' = Finished" using fin 1 2 by simp
    then show ?thesis using asg by simp
  qed
  have waiting: "\<forall>j. goroutines s j \<noteq> NotStarted \<longleftrightarrow> j < batch_end B n (batch_start s)"
    if "main_at s = Waiting"
    using main that by (simp add: started_below_def)
  from dvd bound batch earlier waiting show ?thesis by blast
qed

theorem batch_barrier_witness:
  "reachable 1 1 2 second_batch_state \<and> (0::nat) < 1
   \<and> goroutines second_batch_state 1 \<noteq> NotStarted \<and> (0::nat) div 1 < 1 div 1
   \<and> goroutines second_batch_state 0 = Finished \<and> 0 \<in> assigned second_batch_state
   \<and> batch_start second_batch_state = 1"
proof -
  have r: "reachable 1 1 2 second_batch_state" by (rule reachable_second_batch_state)
  have p: "(0::nat) < 1" by simp
  have g: "goroutines second_batch_state 1 \<noteq> NotStarted \<and> (0::nat) div 1 < 1 div 1"
    by (simp add: second_batch_state_def)
  from batch_barrier [OF r p] have
    "\<forall>j j'. goroutines second_batch_state j \<noteq> NotStarted \<and> j' div 1 < j div 1 \<longrightarrow>
            goroutines second_batch_state j' = Finished \<and> j' \<in> assigned second_batch_state"
    by blast
  with g have "goroutines second_batch_state 0 = Finished \<and> 0 \<in> assigned second_batch_state"
    by blast
  moreover have "batch_start second_batch_state = 1" by (simp add: second_batch_state_def)
  ultimately show ?thesis using r p g by blast
qed

end
